theory Spec2Isabelle
  imports Complex_Main
begin

section \<open>Tensors\<close>

text \<open>
  A torch tensor is its shape and its entries in row-major (contiguous) order. Entries are
  real numbers: a finite float is read as the real it denotes and rounding is not modelled.
  A float division by zero does not raise in torch, it stores inf or nan; the model gives
  such a computation the outcome \<open>NonFinite\<close>. All other constructors of \<open>error\<close> are
  Python exceptions.
\<close>

record tensor =
  shape :: "nat list"
  data :: "real list"

datatype error =
  AssertionError | ValueError | RuntimeError | IndexError | KeyError | RuntimeWarning
  | ZeroDivisionError | NonFinite

definition ebind :: "error + 'a \<Rightarrow> ('a \<Rightarrow> error + 'b) \<Rightarrow> error + 'b" where
  "ebind m f = (case m of Inl e \<Rightarrow> Inl e | Inr v \<Rightarrow> f v)"

definition wf :: "tensor \<Rightarrow> bool" where
  "wf t \<longleftrightarrow> length (data t) = prod_list (shape t)"

definition tdim :: "tensor \<Rightarrow> nat" where
  \<comment> \<open>\<open>input.dim()\<close>\<close>
  "tdim t = length (shape t)"

definition tsize :: "tensor \<Rightarrow> nat \<Rightarrow> error + nat" where
  \<comment> \<open>\<open>input.size(d)\<close> for a non-negative \<open>d\<close>\<close>
  "tsize t d = (if d < tdim t then Inr (shape t ! d) else Inl IndexError)"

definition matrix :: "nat \<Rightarrow> nat \<Rightarrow> (nat \<Rightarrow> nat \<Rightarrow> real) \<Rightarrow> tensor" where
  "matrix n d f = \<lparr>shape = [n, d], data = map (\<lambda>k. f (k div d) (k mod d)) [0..<n * d]\<rparr>"

definition vector :: "nat \<Rightarrow> (nat \<Rightarrow> real) \<Rightarrow> tensor" where
  "vector n f = \<lparr>shape = [n], data = map f [0..<n]\<rparr>"

definition nrows :: "tensor \<Rightarrow> nat" where
  "nrows x = shape x ! 0"

definition ncols :: "tensor \<Rightarrow> nat" where
  "ncols x = shape x ! 1"

definition entry :: "tensor \<Rightarrow> nat \<Rightarrow> nat \<Rightarrow> real" where
  \<comment> \<open>entry \<open>x[i, j]\<close> of a matrix\<close>
  "entry x i j = data x ! (i * ncols x + j)"

definition tr :: "tensor \<Rightarrow> error + tensor" where
  \<comment> \<open>\<open>x.t()\<close>: torch refuses tensors of more than two dimensions; the sources call it on
      matrices only, and the model refuses every other rank\<close>
  "tr x = (if tdim x = 2 then Inr (matrix (ncols x) (nrows x) (\<lambda>i j. entry x j i))
          else Inl RuntimeError)"

definition matmul :: "tensor \<Rightarrow> tensor \<Rightarrow> error + tensor" where
  \<comment> \<open>\<open>x @ y\<close> on two matrices, and the dot product of two vectors (a tensor of
      shape [] with one entry); the sources use no other combination of ranks\<close>
  "matmul x y =
     (if tdim x = 2 \<and> tdim y = 2 then
        (if ncols x = nrows y
         then Inr (matrix (nrows x) (ncols y) (\<lambda>i j. \<Sum>k<ncols x. entry x i k * entry y k j))
         else Inl RuntimeError)
      else if tdim x = 1 \<and> tdim y = 1 then
        (if shape x = shape y
         then Inr \<lparr>shape = [], data = [\<Sum>k<nrows x. data x ! k * data y ! k]\<rparr>
         else Inl RuntimeError)
      else Inl RuntimeError)"

definition item :: "tensor \<Rightarrow> error + real" where
  \<comment> \<open>\<open>x.item()\<close>: the entry of a one-entry tensor\<close>
  "item x = (case data x of [v] \<Rightarrow> Inr v | _ \<Rightarrow> Inl ValueError)"

definition cat0 :: "tensor \<Rightarrow> tensor \<Rightarrow> error + tensor" where
  \<comment> \<open>\<open>torch.cat([a, b], dim=0)\<close>: the ranks and all sizes but the first must agree\<close>
  "cat0 a b =
     (case (shape a, shape b) of
        (m # ra, n # rb) \<Rightarrow>
          if ra = rb then Inr \<lparr>shape = (m + n) # ra, data = data a @ data b\<rparr>
          else Inl RuntimeError
      | _ \<Rightarrow> Inl RuntimeError)"

definition unbind :: "tensor \<Rightarrow> error + tensor list" where
  \<comment> \<open>\<open>x.unbind()\<close>: the slices along dimension 0\<close>
  "unbind x =
     (case shape x of
        [] \<Rightarrow> Inl RuntimeError
      | n # rest \<Rightarrow>
          Inr (map (\<lambda>i. \<lparr>shape = rest,
                          data = take (prod_list rest) (drop (i * prod_list rest) (data x))\<rparr>)
                   [0..<n]))"

definition flatten2 :: "tensor \<Rightarrow> error + tensor" where
  \<comment> \<open>\<open>x.flatten(start_dim=2, end_dim=-1)\<close>\<close>
  "flatten2 x =
     (if tdim x < 3 then Inl IndexError
      else Inr \<lparr>shape = take 2 (shape x) @ [prod_list (drop 2 (shape x))], data = data x\<rparr>)"

section \<open>similarity.py: centering and normalisation\<close>

definition check_shape_equal :: "tensor \<Rightarrow> tensor \<Rightarrow> nat \<Rightarrow> error + unit" where
  "check_shape_equal x y d =
     ebind (tsize x d) (\<lambda>a. ebind (tsize y d) (\<lambda>b.
       if a \<noteq> b then Inl ValueError else Inr ()))"

definition zero_mean :: "tensor \<Rightarrow> tensor" where
  \<comment> \<open>\<open>_zero_mean(input, dim=0)\<close> on a matrix, which is what the sources pass: every column
      loses its mean. With no rows the mean is nan, and it is subtracted from no entry.\<close>
  "zero_mean x =
     matrix (nrows x) (ncols x) (\<lambda>i j. entry x i j - (\<Sum>k<nrows x. entry x k j) / real (nrows x))"

definition fro :: "tensor \<Rightarrow> real" where
  \<comment> \<open>the Frobenius norm\<close>
  "fro x = sqrt (\<Sum>v\<leftarrow>data x. v\<^sup>2)"

definition scale :: "real \<Rightarrow> tensor \<Rightarrow> tensor" where
  "scale c x = x\<lparr>data := map (\<lambda>v. c * v) (data x)\<rparr>"

definition matrix_normalize :: "tensor \<Rightarrow> error + tensor" where
  \<comment> \<open>\<open>_matrix_normalize(input, dim=0)\<close>: dividing by a zero norm stores nan\<close>
  "matrix_normalize x =
     (let X_centered = zero_mean x in
      if data X_centered = [] then Inr X_centered
      else if fro X_centered = 0 then Inl NonFinite
      else Inr (scale (1 / fro X_centered) X_centered))"

section \<open>similarity.py: canonical correlation analysis\<close>

text \<open>
  \<open>_svd\<close> comes from the module \<open>utils\<close>, and the QR decomposition, the matrix inverse and
  the nuclear norm from torch: the functions below take them as the parameter \<open>la\<close>.
  \<open>svd la x\<close> is the triple (U, S, V) with S a vector.
\<close>

record linalg =
  svd :: "tensor \<Rightarrow> tensor \<times> tensor \<times> tensor"
  qr :: "tensor \<Rightarrow> tensor \<times> tensor"
  mat_inverse :: "tensor \<Rightarrow> error + tensor"
  nuclear_norm :: "tensor \<Rightarrow> real"

definition back_project :: "tensor \<Rightarrow> tensor \<Rightarrow> tensor \<Rightarrow> error + tensor option" where
  \<comment> \<open>\<open>(v * s.reciprocal_().unsqueeze_(0)) @ u\<close>. The reciprocal of a zero singular value is
      inf, which makes every entry of the product inf or nan: the result is then \<open>None\<close>,
      a tensor without a finite entry, and no exception. The shapes agree whenever \<open>v\<close> and
      \<open>s\<close> come from one decomposition.\<close>
  "back_project v s u =
     (if tdim v \<noteq> 2 \<or> tdim s \<noteq> 1 \<or> ncols v \<noteq> nrows s then Inl RuntimeError
      else ebind (matmul (matrix (nrows v) (ncols v) (\<lambda>i j. entry v i j / data s ! j)) u)
             (\<lambda>m. Inr (if 0 \<in> set (data s) \<and> data m \<noteq> [] then None else Some m)))"

definition cca_by_svd ::
  "linalg \<Rightarrow> tensor \<Rightarrow> tensor \<Rightarrow> error + (tensor option \<times> tensor option \<times> tensor)" where
  "cca_by_svd la x y =
     (case svd la x of (u_1, s_1, v_1) \<Rightarrow>
      case svd la y of (u_2, s_2, v_2) \<Rightarrow>
      ebind (tr u_1) (\<lambda>u_1t. ebind (matmul u_1t u_2) (\<lambda>uu.
        case svd la uu of (u, diag, v) \<Rightarrow>
        ebind (back_project v_1 s_1 u) (\<lambda>a.
        ebind (back_project v_2 s_2 v) (\<lambda>b.
        Inr (a, b, diag))))))"

definition cca_by_qr ::
  "linalg \<Rightarrow> tensor \<Rightarrow> tensor \<Rightarrow> error + (tensor option \<times> tensor option \<times> tensor)" where
  "cca_by_qr la x y =
     (case qr la x of (q_1, r_1) \<Rightarrow>
      case qr la y of (q_2, r_2) \<Rightarrow>
      ebind (tr q_1) (\<lambda>q_1t. ebind (matmul q_1t q_2) (\<lambda>qq.
        case svd la qq of (u, diag, v) \<Rightarrow>
        ebind (mat_inverse la r_1) (\<lambda>r_1i. ebind (matmul r_1i u) (\<lambda>a.
        ebind (mat_inverse la r_2) (\<lambda>r_2i. ebind (matmul r_2i v) (\<lambda>b.
        Inr (Some a, Some b, diag))))))))"

definition fewer_points_than_features :: "tensor \<Rightarrow> tensor \<Rightarrow> error + bool" where
  \<comment> \<open>the condition of the logged warning, \<open>x.size(0) < x.size(1) or y.size(0) < y.size(1)\<close>;
      the warning itself changes no result\<close>
  "fewer_points_than_features x y =
     ebind (tsize x 0) (\<lambda>n. ebind (tsize x 1) (\<lambda>d.
       if n < d then Inr True
       else ebind (tsize y 0) (\<lambda>m. ebind (tsize y 1) (\<lambda>e. Inr (m < e)))))"

definition cca ::
  "linalg \<Rightarrow> tensor \<Rightarrow> tensor \<Rightarrow> string \<Rightarrow> error + (tensor option \<times> tensor option \<times> tensor)" where
  "cca la x y backend =
     ebind (tsize x 0) (\<lambda>n. ebind (tsize y 0) (\<lambda>m.
       if n \<noteq> m then Inl AssertionError
       else ebind (fewer_points_than_features x y) (\<lambda>warn.
         if backend \<notin> {''svd'', ''qr''} then Inl ValueError
         else
           let x = zero_mean x; y = zero_mean y
           in if backend = ''svd'' then cca_by_svd la x y else cca_by_qr la x y)))"

section \<open>similarity.py: SVCCA and PWCCA\<close>

definition cumsum :: "real list \<Rightarrow> real list" where
  "cumsum xs = map (\<lambda>i. sum_list (take (Suc i) xs)) [0..<length xs]"

definition num_retained :: "real list \<Rightarrow> real \<Rightarrow> nat" where
  \<comment> \<open>\<open>num\<close> of \<open>_svd_reduction\<close>, from the singular values: the number of entries of
      \<open>ratio\<close> below \<open>accept_rate\<close>. When \<open>full\<close> is zero every ratio is 0/0 = nan, and
      nan is below nothing.\<close>
  "num_retained diag accept_rate =
     (let full = sum_list (map abs diag);
          ratio = map (\<lambda>c. c / full) (cumsum (map abs diag))
      in if full = 0 then 0 else length (filter (\<lambda>r. r < accept_rate) ratio))"

definition slice_cols :: "tensor \<Rightarrow> nat \<Rightarrow> tensor" where
  \<comment> \<open>\<open>right[:, : num]\<close>\<close>
  "slice_cols right num = matrix (nrows right) (min num (ncols right)) (\<lambda>i j. entry right i j)"

definition svd_reduction :: "linalg \<Rightarrow> tensor \<Rightarrow> real \<Rightarrow> error + tensor" where
  "svd_reduction la input accept_rate =
     (case svd la input of (left, diag, right) \<Rightarrow>
        if tdim right \<noteq> 2 then Inl IndexError
        else matmul input (slice_cols right (num_retained (data diag) accept_rate)))"

definition svcca_distance :: "linalg \<Rightarrow> tensor \<Rightarrow> tensor \<Rightarrow> real \<Rightarrow> string \<Rightarrow> error + real" where
  "svcca_distance la x y accept_rate backend =
     ebind (svd_reduction la x accept_rate) (\<lambda>x.
     ebind (svd_reduction la y accept_rate) (\<lambda>y.
     ebind (tsize x 1) (\<lambda>d1. ebind (tsize y 1) (\<lambda>d2.
       let divisor = min d1 d2
       in ebind (cca la x y backend) (\<lambda>(a, b, diag).
            if divisor = 0 then Inl NonFinite
            else Inr (1 - sum_list (data diag) / real divisor))))))"

definition pwcca_distance :: "linalg \<Rightarrow> tensor \<Rightarrow> tensor \<Rightarrow> string \<Rightarrow> error + real" where
  \<comment> \<open>\<open>alpha /= alpha.sum()\<close> stores nan when the sum is zero, and a coefficient matrix
      without a finite entry leaves none in \<open>alpha\<close>\<close>
  "pwcca_distance la x y backend =
     ebind (cca la x y backend) (\<lambda>(a, b, diag).
       case a of
         None \<Rightarrow> Inl NonFinite
       | Some a \<Rightarrow>
           ebind (matmul x a) (\<lambda>xa.
             if tdim xa \<noteq> 2 then Inl IndexError
             else
               let alpha = vector (ncols xa) (\<lambda>j. \<Sum>i<nrows xa. \<bar>entry xa i j\<bar>);
                   total = sum_list (data alpha)
               in ebind (matmul (scale (1 / total) alpha) diag) (\<lambda>d.
                    if data alpha \<noteq> [] \<and> total = 0 then Inl NonFinite
                    else ebind (item d) (\<lambda>v. Inr (1 - v)))))"

section \<open>similarity.py: linear CKA\<close>

definition debiased_dot_product_similarity ::
  "real \<Rightarrow> tensor \<Rightarrow> tensor \<Rightarrow> real \<Rightarrow> real \<Rightarrow> int \<Rightarrow> error + real" where
  \<comment> \<open>\<open>n\<close> is the argument \<open>size\<close>. \<open>size / (size - 2)\<close> divides two Python ints and raises
      on a zero divisor; the second quotient divides a tensor, which stores inf or nan
      instead\<close>
  "debiased_dot_product_similarity z sum_row_x sum_row_y sq_norm_x sq_norm_y n =
     (if n - 2 = 0 then Inl ZeroDivisionError
      else ebind (matmul sum_row_x sum_row_y) (\<lambda>d. ebind (item d) (\<lambda>dot.
        if (n - 1) * (n - 2) = 0 then Inl NonFinite
        else Inr (z - real_of_int n / real_of_int (n - 2) * dot
                  + sq_norm_x * sq_norm_y / real_of_int ((n - 1) * (n - 2))))))"

definition linear_cka_distance :: "tensor \<Rightarrow> tensor \<Rightarrow> bool \<Rightarrow> error + real" where
  "linear_cka_distance x0 y0 reduce_bias =
     (let x = zero_mean x0; y = zero_mean y0 in
      ebind (tsize x 0) (\<lambda>n. ebind (tsize y 0) (\<lambda>m.
        if n \<noteq> m then Inl ValueError
        else
          ebind (tr y) (\<lambda>yt. ebind (matmul yt x) (\<lambda>yx.
          ebind (tr x) (\<lambda>xt. ebind (matmul xt x) (\<lambda>xx.
          ebind (matmul yt y) (\<lambda>yy.
            let dot_prod = (fro yx)\<^sup>2; norm_x = fro xx; norm_y = fro yy in
            ebind
              (if reduce_bias then
                 let sz = int n;
                     sum_row_x = vector (nrows x) (\<lambda>i. \<Sum>j<ncols x. entry x i j * entry x i j);
                     sum_row_y = vector (nrows y) (\<lambda>i. \<Sum>j<ncols y. entry y i j * entry y i j);
                     sq_norm_x = sum_list (data sum_row_x);
                     sq_norm_y = sum_list (data sum_row_y)
                 in ebind (debiased_dot_product_similarity dot_prod sum_row_x sum_row_y
                             sq_norm_x sq_norm_y sz) (\<lambda>dot_prod'.
                    ebind (debiased_dot_product_similarity (norm_x\<^sup>2) sum_row_x sum_row_y
                             sq_norm_x sq_norm_y sz) (\<lambda>norm_x'.
                    ebind (debiased_dot_product_similarity (norm_y\<^sup>2) sum_row_x sum_row_y
                             sq_norm_x sq_norm_y sz) (\<lambda>norm_y'.
                    Inr (dot_prod', norm_x', norm_y'))))
               else Inr (dot_prod, norm_x, norm_y))
              (\<lambda>(dot_prod, norm_x, norm_y).
                 if norm_x * norm_y = 0 then Inl NonFinite
                 else Inr (1 - dot_prod / (norm_x * norm_y)))))))))))"

section \<open>similarity.py: orthogonal Procrustes distance\<close>

definition orthogonal_procrustes_distance :: "linalg \<Rightarrow> tensor \<Rightarrow> tensor \<Rightarrow> error + real" where
  \<comment> \<open>A normalised matrix holding nan raises nothing by itself: the product is still formed
      (and raises on mismatched shapes), and the distance is then nan.\<close>
  "orthogonal_procrustes_distance la x0 y0 =
     (let x = matrix_normalize x0; y = matrix_normalize y0 in
      if tdim x0 \<noteq> 2 \<or> tdim y0 \<noteq> 2 \<or> nrows x0 \<noteq> nrows y0 then Inl RuntimeError
      else ebind x (\<lambda>x. ebind y (\<lambda>y.
        ebind (tr x) (\<lambda>xt. ebind (matmul xt y) (\<lambda>xy.
          Inr (1 - nuclear_norm la xy))))))"

section \<open>similarity.py: SimilarityHook\<close>

text \<open>
  The hook of the spec's ActivationCapture. The model it is attached to is given by what
  \<open>__init__\<close> reads of it; a forward pass of the hooked module is the call \<open>hook\<close>, with
  the module's output and the device that output lives on.
\<close>

record model =
  is_data_parallel :: bool
  named_modules :: "string list"

datatype cca_distance_arg =
  ByName string | ByCallable "tensor \<Rightarrow> tensor \<Rightarrow> error + real"

record similarity_hook =
  name :: string
  cca_function :: "tensor \<Rightarrow> tensor \<Rightarrow> error + real"
  force_cpu :: bool
  device :: "string option"
  hooked :: "tensor option"  \<comment> \<open>\<open>_hooked_tensors\<close>\<close>

definition supported_dim :: "nat list" where
  "supported_dim = [2, 4]"

definition default_backends :: "linalg \<Rightarrow> string \<Rightarrow> (tensor \<Rightarrow> tensor \<Rightarrow> error + real) option" where
  "default_backends la key =
     (if key = ''pwcca'' then Some (\<lambda>x y. pwcca_distance la x y ''svd'')
      else if key = ''svcca'' then Some (\<lambda>x y. svcca_distance la x y (99 / 100) ''svd'')
      else if key = ''lincka'' then Some (\<lambda>x y. linear_cka_distance x y False)
      else if key = ''opd'' then Some (orthogonal_procrustes_distance la)
      else None)"

definition init ::
  "linalg \<Rightarrow> model \<Rightarrow> string \<Rightarrow> cca_distance_arg option \<Rightarrow> bool \<Rightarrow> error + similarity_hook" where
  \<comment> \<open>\<open>SimilarityHook.__init__\<close>; \<open>cca_distance or 'pwcca'\<close> takes the empty string to
      \<open>'pwcca'\<close> too\<close>
  "init la m nm cca_distance fcpu =
     (if is_data_parallel m then Inl RuntimeWarning
      else if nm \<notin> set (named_modules m) then Inl KeyError
      else
        ebind
          (case cca_distance of
             Some (ByCallable f) \<Rightarrow> Inr f
           | Some (ByName k) \<Rightarrow>
               (case default_backends la (if k = [] then ''pwcca'' else k) of
                  None \<Rightarrow> Inl KeyError | Some f \<Rightarrow> Inr f)
           | None \<Rightarrow>
               (case default_backends la ''pwcca'' of
                  None \<Rightarrow> Inl KeyError | Some f \<Rightarrow> Inr f))
          (\<lambda>f. Inr \<lparr>name = nm, cca_function = f, force_cpu = fcpu,
                    device = None, hooked = None\<rparr>))"

definition hook :: "similarity_hook \<Rightarrow> string \<Rightarrow> tensor \<Rightarrow> similarity_hook \<times> error option" where
  \<comment> \<open>the forward hook registered by \<open>_register_hook\<close>: the hook as it is left, and the
      exception if one was raised\<close>
  "hook self dev output =
     (if tdim output \<notin> set supported_dim then (self, Some RuntimeError)
      else
        let self = self\<lparr>device := Some dev\<rparr>
        in case hooked self of
             None \<Rightarrow> (self\<lparr>hooked := Some output\<rparr>, None)
           | Some buf \<Rightarrow>
               (case cat0 buf output of
                  Inl e \<Rightarrow> (self, Some e)
                | Inr c \<Rightarrow> (self\<lparr>hooked := Some c\<rparr>, None)))"

definition clear :: "similarity_hook \<Rightarrow> similarity_hook" where
  "clear self = self\<lparr>hooked := None\<rparr>"

definition hooked_tensors :: "similarity_hook \<Rightarrow> error + tensor" where
  "hooked_tensors self = (case hooked self of None \<Rightarrow> Inl RuntimeError | Some x \<Rightarrow> Inr x)"

fun emap :: "('a \<Rightarrow> error + 'b) \<Rightarrow> 'a list \<Rightarrow> error + 'b list" where
  "emap f [] = Inr []"
| "emap f (x # xs) = ebind (f x) (\<lambda>v. ebind (emap f xs) (\<lambda>vs. Inr (v # vs)))"

definition distance_cnn_original_anatome ::
  "(tensor \<Rightarrow> int \<Rightarrow> string \<Rightarrow> error + tensor) \<Rightarrow> similarity_hook \<Rightarrow> int option \<Rightarrow>
   string option \<Rightarrow> tensor \<Rightarrow> tensor \<Rightarrow> error + real" where
  \<comment> \<open>\<open>downsample_4d\<close> stands for \<open>SimilarityHook._downsample_4d\<close>, which rests on torch's
      pooling and on the FFT wrappers of \<open>utils\<close>. The mean is taken over the stacked
      distances; \<open>torch.stack\<close> refuses an empty list.\<close>
  "distance_cnn_original_anatome downsample_4d self sz downsample_method self_tensor other_tensor =
     ebind
       (case sz of
          None \<Rightarrow>
            ebind (flatten2 self_tensor) (\<lambda>s. ebind (flatten2 other_tensor) (\<lambda>ot. Inr (s, ot)))
        | Some k \<Rightarrow>
            (let dm = (case downsample_method of
                         None \<Rightarrow> ''avg_pool''
                       | Some d \<Rightarrow> if d = [] then ''avg_pool'' else d)
             in ebind (downsample_4d self_tensor k dm) (\<lambda>s.
                ebind (downsample_4d other_tensor k dm) (\<lambda>ot. Inr (s, ot)))))
       (\<lambda>(s, ot).
          ebind (unbind s) (\<lambda>ss. ebind (unbind ot) (\<lambda>os.
          ebind (emap (\<lambda>(a, b). cca_function self a b) (zip ss os)) (\<lambda>ds.
            if ds = [] then Inl RuntimeError
            else Inr (sum_list ds / real (length ds))))))"

definition distance ::
  "(tensor \<Rightarrow> int \<Rightarrow> string \<Rightarrow> error + tensor) \<Rightarrow> similarity_hook \<Rightarrow> similarity_hook \<Rightarrow>
   string option \<Rightarrow> int option \<Rightarrow> string \<Rightarrow> error + real option" where
  \<comment> \<open>\<open>SimilarityHook.distance\<close>. \<open>Inr None\<close> is Python's \<open>None\<close>, the value of a call that
      runs off the end of the function body. Moving the tensors to a device changes no
      entry.\<close>
  "distance downsample_4d self other downsample_method sz effecive_neuron_type =
     ebind (hooked_tensors self) (\<lambda>self_tensor.
     ebind (hooked_tensors other) (\<lambda>other_tensor.
     ebind (tsize self_tensor 0) (\<lambda>n. ebind (tsize other_tensor 0) (\<lambda>m.
       if n \<noteq> m then Inl RuntimeError
       else if tdim self_tensor \<noteq> tdim other_tensor then Inl RuntimeError
       else if tdim self_tensor = 2 then
         ebind (cca_function self self_tensor other_tensor) (\<lambda>d. Inr (Some d))
       else if effecive_neuron_type = ''filter'' then Inr None
       else if effecive_neuron_type = ''activation'' then Inl AssertionError
       else if effecive_neuron_type = ''original_anatome'' then
         ebind (distance_cnn_original_anatome downsample_4d self sz downsample_method
                  self_tensor other_tensor) (\<lambda>dist. Inr (Some dist))
       else Inl ValueError))))"

section \<open>fourier.py\<close>

definition py_index :: "nat \<Rightarrow> int \<Rightarrow> error + nat" where
  \<comment> \<open>an index or a dimension as Python and torch read it: negative ones count from the end\<close>
  "py_index n i = (if - int n \<le> i \<and> i < int n then Inr (nat (i mod int n)) else Inl IndexError)"

definition size_at :: "tensor \<Rightarrow> int \<Rightarrow> error + nat" where
  \<comment> \<open>\<open>input.size(dim)\<close> for any int \<open>dim\<close>\<close>
  "size_at x d = ebind (py_index (tdim x) d) (\<lambda>k. Inr (shape x ! k))"

definition roll_dim :: "tensor \<Rightarrow> int \<Rightarrow> nat \<Rightarrow> tensor" where
  \<comment> \<open>\<open>torch.roll\<close> along one dimension \<open>d\<close>: the entry at position \<open>p\<close> of that dimension
      comes from position \<open>(p - shift) mod n\<close>\<close>
  "roll_dim x shift d =
     (let n = shape x ! d; inner = prod_list (drop (Suc d) (shape x))
      in x\<lparr>data :=
             map (\<lambda>k. data x ! (k div (n * inner) * (n * inner)
                                 + nat ((int (k div inner mod n) - shift) mod int n) * inner
                                 + k mod inner))
                 [0..<length (data x)]\<rparr>)"

fun roll_pairs :: "tensor \<Rightarrow> (int \<times> int) list \<Rightarrow> error + tensor" where
  "roll_pairs x [] = Inr x"
| "roll_pairs x ((shift, d) # rest) =
     ebind (py_index (tdim x) d) (\<lambda>k. roll_pairs (roll_dim x shift k) rest)"

definition roll :: "tensor \<Rightarrow> int list \<Rightarrow> int list \<Rightarrow> error + tensor" where
  \<comment> \<open>\<open>torch.roll(input, shifts, dims)\<close> with a list of dimensions: it refuses an empty
      list of shifts and lists of different lengths, and rolls one dimension after the other\<close>
  "roll x shifts dims =
     (if shifts = [] then Inl RuntimeError
      else if length shifts \<noteq> length dims then Inl RuntimeError
      else roll_pairs x (zip shifts dims))"

definition fft_shift :: "tensor \<Rightarrow> int list option \<Rightarrow> error + tensor" where
  "fft_shift input dims =
     (let dims = (case dims of
                    None \<Rightarrow> map int [(if tdim input = 4 then 1 else 2)..<tdim input - 1]
                  | Some ds \<Rightarrow> ds)
      in ebind (emap (\<lambda>d. ebind (size_at input d) (\<lambda>n. Inr (int n div 2))) dims) (\<lambda>shift.
         roll input shift dims))"

definition ifft_shift :: "tensor \<Rightarrow> int list option \<Rightarrow> error + tensor" where
  \<comment> \<open>\<open>-input.size(dim) // 2\<close> negates first and floor-divides after, as Python reads it\<close>
  "ifft_shift input dims =
     (let dims = (case dims of
                    None \<Rightarrow> map int (rev [Suc (if tdim input = 4 then 0 else 1)..<tdim input - 1])
                  | Some ds \<Rightarrow> ds)
      in ebind (emap (\<lambda>d. ebind (size_at input d) (\<lambda>n. Inr ((- int n) div 2))) dims) (\<lambda>shift.
         roll input shift dims))"

text \<open>
  \<open>add_fourier_noise\<close> works in place on tensors, so the tensors it can reach live in a
  store: a list of tensors, a tensor object being its position in the list. A new
  tensor object goes to the end of the list. The inverse FFT (\<open>Tensor.irfft\<close>) and
  \<open>F.interpolate\<close> are torch's and are taken as the parameter \<open>ext\<close>; the tensors local
  to the call (\<open>noise\<close>, \<open>recon\<close>) are not shared and are kept as values.
\<close>

record fourier_ext =
  irfft2 :: "tensor \<Rightarrow> error + tensor"
  interpolate :: "tensor \<Rightarrow> nat list \<Rightarrow> error + tensor"

type_synonym store = "tensor list"

definition assign_one :: "tensor \<Rightarrow> int \<Rightarrow> int \<Rightarrow> error + tensor" where
  \<comment> \<open>\<open>noise[:, i, j] = 1\<close> on a tensor of shape [1, h, w, 2]\<close>
  "assign_one noise i j =
     (let h = shape noise ! 1; w = shape noise ! 2
      in ebind (py_index h i) (\<lambda>a. ebind (py_index w j) (\<lambda>b.
           Inr (noise\<lparr>data := (data noise)[(a * w + b) * 2 := 1, (a * w + b) * 2 + 1 := 1]\<rparr>))))"

definition clamp01 :: "real \<Rightarrow> real" where
  \<comment> \<open>one entry under \<open>clamp_(0, 1)\<close>\<close>
  "clamp01 v = min (max v 0) 1"

definition fourier_recon ::
  "fourier_ext \<Rightarrow> int \<times> int \<Rightarrow> nat \<Rightarrow> nat \<Rightarrow> real \<Rightarrow> nat list option \<Rightarrow> error + tensor" where
  \<comment> \<open>\<open>recon\<close> as it is added to the images; \<open>resize\<close> is \<open>images.shape[2:]\<close> when \<open>size\<close>
      is given and \<open>nrm\<close> is the argument \<open>norm\<close>. Dividing by a zero norm stores nan.\<close>
  "fourier_recon ext idx h w nrm resize =
     (let noise = \<lparr>shape = [1, h, w, 2], data = replicate (h * w * 2) 0\<rparr>
      in ebind (assign_one noise (fst idx) (snd idx)) (\<lambda>noise.
         ebind (assign_one noise (int h - 1 - fst idx) (int w - 1 - snd idx)) (\<lambda>noise.
         ebind (ifft_shift noise None) (\<lambda>shifted.
         ebind (irfft2 ext shifted) (\<lambda>r.
           let recon = r\<lparr>shape := 1 # shape r\<rparr>
           in if data recon \<noteq> [] \<and> fro recon = 0 then Inl NonFinite
              else
                let recon = recon\<lparr>data := map (\<lambda>v. v / fro recon * nrm) (data recon)\<rparr>
                in case resize of
                     None \<Rightarrow> Inr recon
                   | Some hw \<Rightarrow> interpolate ext recon hw)))))"

definition add_clamp :: "tensor \<Rightarrow> tensor \<Rightarrow> error + tensor" where
  \<comment> \<open>\<open>images.add_(recon).clamp_(0, 1)\<close> with \<open>recon\<close> of shape [1, 1, H, W] broadcast over
      the batch and the channels of \<open>images\<close>\<close>
  "add_clamp images recon =
     (if tdim images = 4 \<and> shape recon = [1, 1] @ drop 2 (shape images) then
        Inr (images\<lparr>data :=
               map (\<lambda>k. clamp01 (data images ! k + data recon ! (k mod length (data recon))))
                   [0..<length (data images)]\<rparr>)
      else Inl RuntimeError)"

definition add_fourier_noise ::
  "fourier_ext \<Rightarrow> int \<times> int \<Rightarrow> nat \<Rightarrow> real \<Rightarrow> (nat \<times> nat) option \<Rightarrow> store \<Rightarrow>
   store \<times> (error + nat)" where
  \<comment> \<open>\<open>images0\<close> is the tensor object passed in; the result is the store after the call and
      the tensor object returned, or the exception\<close>
  "add_fourier_noise ext idx images0 nrm sz st =
     (let images = length st;
          st = st @ [st ! images0]
      in case (case sz of
                 None \<Rightarrow> (case shape (st ! images) of
                             [b, c, h, w] \<Rightarrow> Inr (h, w)
                           | _ \<Rightarrow> Inl ValueError)
               | Some hw \<Rightarrow> Inr hw) of
           Inl e \<Rightarrow> (st, Inl e)
         | Inr (h, w) \<Rightarrow>
             (case fourier_recon ext idx h w nrm
                     (case sz of None \<Rightarrow> None | Some hw \<Rightarrow> Some (drop 2 (shape (st ! images)))) of
                Inl e \<Rightarrow> (st, Inl e)
              | Inr recon \<Rightarrow>
                  (case add_clamp (st ! images) recon of
                     Inl e \<Rightarrow> (st, Inl e)
                   | Inr result \<Rightarrow> (st[images := result], Inr images))))"

section \<open>Operations on a hook, and the spec's formula for the debiased CKA\<close>

text \<open>
  What a caller can do with a hook, and the hook each operation leaves behind. Reading the
  buffer and computing a distance assign no attribute of the hook.
\<close>

datatype hook_op =
  Forward string tensor
  | Clear
  | HookedTensors
  | Distance "tensor \<Rightarrow> int \<Rightarrow> string \<Rightarrow> error + tensor" similarity_hook
      "string option" "int option" string

fun run_op :: "similarity_hook \<Rightarrow> hook_op \<Rightarrow> similarity_hook" where
  "run_op self (Forward dev outp) = fst (hook self dev outp)"
| "run_op self Clear = clear self"
| "run_op self HookedTensors = self"
| "run_op self (Distance ds other dm sz nt) = self"

definition lincka_hook :: "tensor option \<Rightarrow> similarity_hook" where
  \<comment> \<open>the hook that \<open>__init__\<close> builds for the module \<open>'fc'\<close> and \<open>cca_distance = 'lincka'\<close>,
      holding the buffer \<open>buf\<close>\<close>
  "lincka_hook buf =
     \<lparr>name = ''fc'', cca_function = (\<lambda>x y. linear_cka_distance x y False),
      force_cpu = False, device = None, hooked = buf\<rparr>"

definition fc_model :: model where
  "fc_model = \<lparr>is_data_parallel = False, named_modules = ['''', ''fc'']\<rparr>"

definition no_linalg :: linalg where
  \<comment> \<open>stands in where no decomposition is called\<close>
  "no_linalg = \<lparr>svd = (\<lambda>x. (x, x, x)), qr = (\<lambda>x. (x, x)), mat_inverse = Inr,
                nuclear_norm = (\<lambda>x. 0)\<rparr>"

definition gram :: "tensor \<Rightarrow> tensor \<Rightarrow> tensor" where
  \<comment> \<open>the matrix \<open>a\<^sup>t b\<close>\<close>
  "gram a b = matrix (ncols a) (ncols b) (\<lambda>i j. \<Sum>k<nrows a. entry a k i * entry b k j)"

definition row_sums :: "tensor \<Rightarrow> tensor" where
  \<comment> \<open>\<open>torch.einsum('ij,ij->i', x, x)\<close>, the \<open>sum_row_x\<close> of \<open>linear_cka_distance\<close>\<close>
  "row_sums x = vector (nrows x) (\<lambda>i. \<Sum>j<ncols x. entry x i j * entry x i j)"

text \<open>
  The correction as the spec words it: \<open>rx\<close> and \<open>ry\<close> are the per-row squared norms of
  the centered matrices and \<open>N\<close> is the row count.
\<close>

definition spec_row_sums :: "tensor \<Rightarrow> real list" where
  "spec_row_sums x = map (\<lambda>i. \<Sum>j<ncols x. (entry x i j)\<^sup>2) [0..<nrows x]"

definition spec_corrected :: "real list \<Rightarrow> real list \<Rightarrow> nat \<Rightarrow> real \<Rightarrow> real" where
  "spec_corrected rx ry N z =
     z - real N / (real N - 2) * (\<Sum>i<N. rx ! i * ry ! i)
       + sum_list rx * sum_list ry / ((real N - 1) * (real N - 2))"

definition cka_x :: tensor where
  "cka_x = matrix 3 1 (\<lambda>i j. real i)"

definition cka_y :: tensor where
  "cka_y = matrix 3 1 (\<lambda>i j. if i = 0 then 1 else if i = 1 then 0 else 2)"

section \<open>The contract of the singular value decomposition, and example inputs\<close>

definition identity :: "nat \<Rightarrow> tensor" where
  "identity k = matrix k k (\<lambda>i j. if i = j then 1 else 0)"

definition is_svd :: "tensor \<Rightarrow> tensor \<times> tensor \<times> tensor \<Rightarrow> bool" where
  \<comment> \<open>(U, S, V) is a reduced decomposition of the matrix \<open>x\<close>, as \<open>torch.svd\<close> gives it: U and
      V have orthonormal columns, S is non-negative and descending, and \<open>x\<close> is the product
      of U, the diagonal matrix of S and the transpose of V\<close>
  "is_svd x usv =
     (case usv of (u, s, v) \<Rightarrow>
        let n = nrows x; d = ncols x; k = min n d
        in tdim x = 2 \<and> shape u = [n, k] \<and> shape s = [k] \<and> shape v = [d, k]
           \<and> wf u \<and> wf s \<and> wf v
           \<and> gram u u = identity k \<and> gram v v = identity k
           \<and> sorted_wrt (\<ge>) (data s) \<and> list_all (\<lambda>e. 0 \<le> e) (data s)
           \<and> x = matrix n d (\<lambda>i j. \<Sum>l<k. entry u i l * data s ! l * entry v j l))"

definition x31 :: tensor where
  \<comment> \<open>the diagonal matrix with the singular values 3 and 1\<close>
  "x31 = \<lparr>shape = [2, 2], data = [3, 0, 0, 1]\<rparr>"

definition svd31 :: linalg where
  \<comment> \<open>gives the decomposition of \<open>x31\<close>\<close>
  "svd31 = no_linalg\<lparr>svd := (\<lambda>x. (identity 2, \<lparr>shape = [2], data = [3, 1]\<rparr>, identity 2))\<rparr>"

definition odd_tensor :: tensor where
  \<comment> \<open>a tensor of the documented layout CxHxWx2 with the odd height 3\<close>
  "odd_tensor = \<lparr>shape = [1, 3, 1, 2], data = [1, 2, 3, 4, 5, 6]\<rparr>"

definition real_part_ext :: fourier_ext where
  \<comment> \<open>keeps the real part of every complex entry, which is the inverse transform of a
      signal of one pixel, and resizes nothing\<close>
  "real_part_ext =
     \<lparr>irfft2 = (\<lambda>x. Inr \<lparr>shape = butlast (shape x),
                           data = map (\<lambda>k. data x ! (2 * k)) [0..<length (data x) div 2]\<rparr>),
      interpolate = (\<lambda>x hw. Inr x)\<rparr>"

definition half_image :: tensor where
  \<comment> \<open>a batch of one image of one channel and one pixel\<close>
  "half_image = \<lparr>shape = [1, 1, 1, 1], data = [1 / 2]\<rparr>"

section \<open>An example for PWCCA\<close>

text \<open>
  Two centered matrices with 8 rows, \<open>x7\<close> with 2 columns and \<open>y7\<close> with 3, and their
  decompositions. The columns of \<open>u7x\<close> and \<open>u7y\<close> are orthonormal; \<open>x7\<close> is \<open>u7x\<close> with its
  columns scaled by 2 and 1, \<open>y7\<close> is \<open>u7y\<close> with its columns scaled by 3, 2 and 1. \<open>svd7\<close>
  returns the decomposition of each matrix that the two runs of \<open>pwcca_distance\<close> below
  decompose.
\<close>

definition x7 :: tensor where
  "x7 = \<lparr>shape = [8, 2],
         data = [1, 1/2,  -1, 1/2,  1, -1/2,  -1, -1/2,  0, 0,  0, 0,  0, 0,  0, 0]\<rparr>"

definition y7 :: tensor where
  "y7 = \<lparr>shape = [8, 3],
         data = [3/2, 3/5, 0,   -3/2, 3/5, 0,   3/2, -3/5, 0,   -3/2, -3/5, 0,
                 0, 4/5, 1/2,   0, -4/5, 1/2,   0, 4/5, -1/2,   0, -4/5, -1/2]\<rparr>"

definition u7x :: tensor where
  "u7x = \<lparr>shape = [8, 2],
          data = [1/2, 1/2,  -1/2, 1/2,  1/2, -1/2,  -1/2, -1/2,  0, 0,  0, 0,  0, 0,  0, 0]\<rparr>"

definition u7y :: tensor where
  "u7y = \<lparr>shape = [8, 3],
          data = [1/2, 3/10, 0,   -1/2, 3/10, 0,   1/2, -3/10, 0,   -1/2, -3/10, 0,
                  0, 2/5, 1/2,   0, -2/5, 1/2,   0, 2/5, -1/2,   0, -2/5, -1/2]\<rparr>"

definition uu7 :: tensor where
  "uu7 = \<lparr>shape = [2, 3], data = [1, 0, 0,  0, 3/5, 0]\<rparr>"

definition uu7t :: tensor where
  "uu7t = \<lparr>shape = [3, 2], data = [1, 0,  0, 3/5,  0, 0]\<rparr>"

definition e32 :: tensor where
  "e32 = \<lparr>shape = [3, 2], data = [1, 0,  0, 1,  0, 0]\<rparr>"

definition svd7 :: "tensor \<Rightarrow> tensor \<times> tensor \<times> tensor" where
  "svd7 m =
     (if m = x7 then (u7x, \<lparr>shape = [2], data = [2, 1]\<rparr>, identity 2)
      else if m = y7 then (u7y, \<lparr>shape = [3], data = [3, 2, 1]\<rparr>, identity 3)
      else if m = uu7 then (identity 2, \<lparr>shape = [2], data = [1, 3/5]\<rparr>, e32)
      else if m = uu7t then (e32, \<lparr>shape = [2], data = [1, 3/5]\<rparr>, identity 2)
      else (m, m, m))"

definition la7 :: linalg where
  "la7 = no_linalg\<lparr>svd := svd7\<rparr>"

text \<open>
  The singular values of \<open>x7\<close> (2 and 1) and of \<open>y7\<close> (3, 2 and 1), the canonical
  correlations of the pair (1 and 3/5), and the product of the two bases up to signs.
\<close>

definition r7x :: "nat \<Rightarrow> real" where
  "r7x l = 2 - real l"

definition r7y :: "nat \<Rightarrow> real" where
  "r7y l = 3 - real l"

definition r7c :: "nat \<Rightarrow> real" where
  "r7c l = 1 - 2 / 5 * real l"

definition c7 :: "nat \<Rightarrow> nat \<Rightarrow> real" where
  "c7 i j = (if i = j then r7c i else 0)"

definition decomposes :: "linalg \<Rightarrow> tensor \<Rightarrow> tensor \<Rightarrow> bool" where
  \<comment> \<open>each of the three calls of \<open>_svd\<close> that \<open>cca(x, y, 'svd')\<close> makes returns a
      decomposition of the matrix it is given\<close>
  "decomposes la x y =
     (let x = zero_mean x; y = zero_mean y
      in is_svd x (svd la x) \<and> is_svd y (svd la y)
         \<and> (case ebind (tr (fst (svd la x))) (\<lambda>u_1t. matmul u_1t (fst (svd la y))) of
               Inl e \<Rightarrow> False
             | Inr uu \<Rightarrow> is_svd uu (svd la uu)))"

section \<open>Orthogonal matrices, and an example for the Procrustes distance\<close>

definition is_orthogonal :: "tensor \<Rightarrow> bool" where
  "is_orthogonal R \<longleftrightarrow>
     tdim R = 2 \<and> nrows R = ncols R
     \<and> gram R R = identity (ncols R)
     \<and> matrix (nrows R) (nrows R) (\<lambda>i j. \<Sum>m<ncols R. entry R i m * entry R j m)
         = identity (nrows R)"

text \<open>
  The matrix \<open>p5_x\<close> is centered and has the Frobenius norm 10; \<open>p5_y\<close> is \<open>p5_x\<close> times the
  rotation \<open>rot34\<close>; \<open>p5_xn\<close> and \<open>p5_yn\<close> are the two matrices normalised. The products of
  the normalised matrices have the singular values 16/25 and 9/25.
\<close>

definition p5_x :: tensor where
  "p5_x = \<lparr>shape = [4, 2], data = [3, 4,  3, -4,  -3, 4,  -3, -4]\<rparr>"

definition rot34 :: tensor where
  "rot34 = \<lparr>shape = [2, 2], data = [3/5, 4/5,  -4/5, 3/5]\<rparr>"

definition p5_y :: tensor where
  "p5_y = \<lparr>shape = [4, 2], data = [-7/5, 24/5,  5, 0,  -5, 0,  7/5, -24/5]\<rparr>"

definition p5_xn :: tensor where
  "p5_xn = \<lparr>shape = [4, 2], data = [3/10, 2/5,  3/10, -2/5,  -3/10, 2/5,  -3/10, -2/5]\<rparr>"

definition p5_yn :: tensor where
  "p5_yn = \<lparr>shape = [4, 2], data = [-7/50, 12/25,  1/2, 0,  -1/2, 0,  7/50, -12/25]\<rparr>"

definition swap2 :: tensor where
  "swap2 = \<lparr>shape = [2, 2], data = [0, 1,  1, 0]\<rparr>"

definition p5_s :: tensor where
  "p5_s = \<lparr>shape = [2], data = [16/25, 9/25]\<rparr>"

definition p5_v :: tensor where
  "p5_v = \<lparr>shape = [2, 2], data = [-4/5, 3/5,  3/5, 4/5]\<rparr>"

definition unit_nuclear :: linalg where
  "unit_nuclear = no_linalg\<lparr>nuclear_norm := (\<lambda>m. 1)\<rparr>"

section \<open>Basic facts about the tensor operations\<close>

lemma ebind_Inr [simp]: "ebind (Inr v) f = f v"
  by (simp add: ebind_def)

lemma ebind_Inl [simp]: "ebind (Inl e) f = Inl e"
  by (simp add: ebind_def)

lemma shape_matrix [simp]: "shape (matrix n d f) = [n, d]"
  by (simp add: matrix_def)

lemma tdim_matrix [simp]: "tdim (matrix n d f) = 2"
  by (simp add: tdim_def)

lemma nrows_matrix [simp]: "nrows (matrix n d f) = n"
  by (simp add: nrows_def)

lemma ncols_matrix [simp]: "ncols (matrix n d f) = d"
  by (simp add: ncols_def)

lemma length_data_matrix [simp]: "length (data (matrix n d f)) = n * d"
  by (simp add: matrix_def)

lemma flat_index_less:
  assumes "i < n" "j < d"
  shows "i * d + j < n * (d::nat)"
proof -
  have "i * d + j < Suc i * d" using assms by simp
  also have "\<dots> \<le> n * d" using assms by (intro mult_le_mono1) simp
  finally show ?thesis .
qed

lemma entry_matrix [simp]:
  assumes "i < n" "j < d"
  shows "entry (matrix n d f) i j = f i j"
  using assms flat_index_less [OF assms]
  by (simp add: entry_def matrix_def ncols_def)

lemma matrix_cong:
  assumes "\<And>i j. i < n \<Longrightarrow> j < d \<Longrightarrow> f i j = g i j"
  shows "matrix n d f = matrix n d g"
proof -
  have "f (k div d) (k mod d) = g (k div d) (k mod d)" if "k < n * d" for k
  proof -
    have "0 < d" using that by (cases d) auto
    moreover have "k div d < n" using that by (simp add: less_mult_imp_div_less)
    ultimately show ?thesis by (intro assms) auto
  qed
  then show ?thesis by (simp add: matrix_def)
qed

lemma tsize_matrix [simp]:
  "tsize (matrix n d f) 0 = Inr n" "tsize (matrix n d f) (Suc 0) = Inr d"
  by (simp_all add: tsize_def)

section \<open>Claims about similarity.py\<close>

text \<open>
  C3. For matrices \<open>x\<close> and \<open>y\<close> with different numbers of rows, \<open>cca\<close> fails whatever the
  backend string is. The failure is the \<open>assert\<close> on the row counts, the first statement of
  the function (an \<open>AssertionError\<close>): it comes before the check of the backend and
  before any decomposition, so the outcome is the same for every \<open>la\<close>, and no triple is
  returned.
\<close>

theorem cca_row_mismatch:
  assumes "tdim x = 2" "tdim y = 2" "nrows x \<noteq> nrows y"
  shows "cca la x y backend = Inl AssertionError"
  using assms by (simp add: cca_def tsize_def nrows_def)

theorem cca_row_mismatch_witness:
  "\<forall>la backend.
     cca la (matrix 5 3 (\<lambda>i j. real (i + j))) (matrix 7 3 (\<lambda>i j. real (i * j))) backend
       = Inl AssertionError"
  using cca_row_mismatch [of "matrix 5 3 (\<lambda>i j. real (i + j))" "matrix 7 3 (\<lambda>i j. real (i * j))"]
  by simp

section \<open>Claims about SimilarityHook\<close>

text \<open>
  C1. Two hooks hold the same rank-4 activations, one data point of one channel and one
  pixel, and \<open>distance\<close> is called with the default \<open>effecive_neuron_type = 'filter'\<close>. The
  branch for \<open>'filter'\<close> is a bare \<open>pass\<close>: nothing is reshaped, the distance function
  \<open>f\<close> of the hook is never applied, and the call returns Python's \<open>None\<close>, not the
  distance 0, whatever \<open>f\<close> is.
\<close>

theorem distance_filter_returns_None:
  "\<forall>ds f. distance ds
     \<lparr>name = ''layer'', cca_function = f, force_cpu = False, device = Some ''cpu'',
      hooked = Some \<lparr>shape = [1, 1, 1, 1], data = [0]\<rparr>\<rparr>
     \<lparr>name = ''layer'', cca_function = f, force_cpu = False, device = Some ''cpu'',
      hooked = Some \<lparr>shape = [1, 1, 1, 1], data = [0]\<rparr>\<rparr>
     (Some ''avg_pool'') None ''filter'' = Inr None"
  by (simp add: distance_def hooked_tensors_def tsize_def tdim_def)

section \<open>Linear CKA with the bias correction\<close>

lemma data_vector [simp]: "data (vector n f) = map f [0..<n]"
  by (simp add: vector_def)

lemma zero_mean_shape [simp]:
  "tdim (zero_mean x) = 2" "nrows (zero_mean x) = nrows x" "ncols (zero_mean x) = ncols x"
  "tsize (zero_mean x) 0 = Inr (nrows x)"
  by (simp_all add: zero_mean_def)

lemma matmul_tr:
  assumes "tdim a = 2" "tdim b = 2" "nrows a = nrows b"
  shows "matmul (matrix (ncols a) (nrows a) (\<lambda>i j. entry a j i)) b = Inr (gram a b)"
proof -
  have "matrix (ncols a) (ncols b)
          (\<lambda>i j. \<Sum>k<nrows a. entry (matrix (ncols a) (nrows a) (\<lambda>i j. entry a j i)) i k * entry b k j)
        = gram a b"
    unfolding gram_def by (rule matrix_cong) simp
  then show ?thesis using assms by (simp add: matmul_def)
qed

lemma fro_sq: "(fro x)\<^sup>2 = (\<Sum>v\<leftarrow>data x. v\<^sup>2)"
proof -
  have "0 \<le> (\<Sum>v\<leftarrow>data x. v\<^sup>2)"
    by (rule sum_list_nonneg) auto
  then show ?thesis by (simp add: fro_def)
qed

lemma linear_cka_unfold:
  assumes "nrows x0 = nrows y0"
  shows "linear_cka_distance x0 y0 True =
           (let x = zero_mean x0; y = zero_mean y0;
                sx = sum_list (data (row_sums x)); sy = sum_list (data (row_sums y));
                c = (\<lambda>z. debiased_dot_product_similarity z (row_sums x) (row_sums y) sx sy
                             (int (nrows x0)))
            in ebind (c ((fro (gram y x))\<^sup>2)) (\<lambda>d.
               ebind (c ((fro (gram x x))\<^sup>2)) (\<lambda>nx.
               ebind (c ((fro (gram y y))\<^sup>2)) (\<lambda>ny.
                 if nx * ny = 0 then Inl NonFinite else Inr (1 - d / (nx * ny))))))"
proof -
  define x where "x = zero_mean x0"
  define y where "y = zero_mean y0"
  define N where "N = nrows x0"
  have sh: "tdim x = 2" "tdim y = 2" "nrows x = N" "nrows y = N"
    "tsize x 0 = Inr N" "tsize y 0 = Inr N"
    using assms by (simp_all add: x_def y_def N_def)
  have yx: "matmul (matrix (ncols y) N (\<lambda>i j. entry y j i)) x = Inr (gram y x)"
    using matmul_tr [of y x] sh by simp
  have xx: "matmul (matrix (ncols x) N (\<lambda>i j. entry x j i)) x = Inr (gram x x)"
    using matmul_tr [of x x] sh by simp
  have yy: "matmul (matrix (ncols y) N (\<lambda>i j. entry y j i)) y = Inr (gram y y)"
    using matmul_tr [of y y] sh by simp
  show ?thesis
    unfolding linear_cka_distance_def Let_def
      x_def [symmetric] y_def [symmetric] N_def [symmetric]
    by (simp add: sh tr_def yx xx yy row_sums_def ebind_def split: sum.splits)
qed

lemma row_sums_matmul:
  "matmul (row_sums x) (row_sums y) =
     (if nrows x = nrows y
      then Inr \<lparr>shape = [], data = [\<Sum>k<nrows x. data (row_sums x) ! k * data (row_sums y) ! k]\<rparr>
      else Inl RuntimeError)"
  by (simp add: matmul_def row_sums_def vector_def tdim_def nrows_def)

lemma data_row_sums: "data (row_sums x) = spec_row_sums x"
  by (simp add: row_sums_def spec_row_sums_def power2_eq_square)

lemma debiased_eq:
  assumes "2 < nrows x" "nrows y = nrows x"
  shows "debiased_dot_product_similarity z (row_sums x) (row_sums y)
           (sum_list (data (row_sums x))) (sum_list (data (row_sums y))) (int (nrows x))
         = Inr (spec_corrected (spec_row_sums x) (spec_row_sums y) (nrows x) z)"
proof -
  have "real_of_int (int (nrows x) - 2) = real (nrows x) - 2"
    "real_of_int (int (nrows x) - 1) = real (nrows x) - 1"
    by simp_all
  then show ?thesis using assms
    by (simp add: debiased_dot_product_similarity_def item_def spec_corrected_def
        row_sums_matmul data_row_sums)
qed

lemma fro_gram_no_rows:
  assumes "nrows a = 0"
  shows "fro (gram a b) = 0"
proof -
  have "(\<Sum>v\<leftarrow>data (gram a b). v\<^sup>2) = 0"
    using assms by (simp add: gram_def matrix_def comp_def)
  then show ?thesis by (simp add: fro_def)
qed

text \<open>
  C4. With \<open>reduce_bias\<close> set, on matrices with the same number \<open>N > 2\<close> of rows,
  \<open>linear_cka_distance\<close> applies the one correction
  \<open>corrected z = z - N/(N-2) * (row_sums_x \<bullet> row_sums_y) + (\<Sum>row_sums_x)(\<Sum>row_sums_y)/((N-1)(N-2))\<close>
  to \<open>dot_prod\<close>, to \<open>norm_x\<^sup>2\<close> and to \<open>norm_y\<^sup>2\<close>, the row sums being the per-row squared
  norms of the centered matrices, and returns
  \<open>1 - corrected dot_prod / (corrected (norm_x\<^sup>2) * corrected (norm_y\<^sup>2))\<close>, the corrected
  values combined as in the formula without correction (a plain product, no square
  root). The quotient is a value when its divisor is not zero.
\<close>

theorem linear_cka_debiased_formula:
  assumes "tdim x0 = 2" "tdim y0 = 2" "nrows x0 = nrows y0" "2 < nrows x0"
  shows
    "(let x = zero_mean x0; y = zero_mean y0;
          corrected = spec_corrected (spec_row_sums x) (spec_row_sums y) (nrows x0);
          dot_prod = (fro (gram y x))\<^sup>2; norm_x = fro (gram x x); norm_y = fro (gram y y)
      in corrected (norm_x\<^sup>2) * corrected (norm_y\<^sup>2) \<noteq> 0 \<longrightarrow>
         linear_cka_distance x0 y0 True =
           Inr (1 - corrected dot_prod / (corrected (norm_x\<^sup>2) * corrected (norm_y\<^sup>2))))"
proof -
  have "debiased_dot_product_similarity z (row_sums (zero_mean x0)) (row_sums (zero_mean y0))
           (sum_list (data (row_sums (zero_mean x0)))) (sum_list (data (row_sums (zero_mean y0))))
           (int (nrows x0))
         = Inr (spec_corrected (spec_row_sums (zero_mean x0)) (spec_row_sums (zero_mean y0))
                  (nrows x0) z)" for z
    using debiased_eq [of "zero_mean x0" "zero_mean y0" z] assms by simp
  then show ?thesis
    unfolding linear_cka_unfold [OF assms(3)] by (simp add: Let_def)
qed

theorem linear_cka_debiased_formula_witness:
  "linear_cka_distance cka_x cka_y True = Inr 1"
proof -
  let ?c = "spec_corrected (spec_row_sums (zero_mean cka_x)) (spec_row_sums (zero_mean cka_y)) 3"
  have d: "?c (\<Sum>v\<leftarrow>data (gram (zero_mean cka_y) (zero_mean cka_x)). v\<^sup>2) = 0"
    by code_simp
  have nx: "?c (\<Sum>v\<leftarrow>data (gram (zero_mean cka_x) (zero_mean cka_x)). v\<^sup>2) = 3"
    by code_simp
  have ny: "?c (\<Sum>v\<leftarrow>data (gram (zero_mean cka_y) (zero_mean cka_y)). v\<^sup>2) = 3"
    by code_simp
  have sh: "tdim cka_x = 2" "tdim cka_y = 2" "nrows cka_x = 3" "nrows cka_y = 3"
    by (simp_all add: cka_x_def cka_y_def)
  show ?thesis
    using linear_cka_debiased_formula [of cka_x cka_y]
    by (simp add: Let_def fro_sq d nx ny sh)
qed

text \<open>
  C9. \<open>_debiased_dot_product_similarity\<close> divides by \<open>N - 2\<close> and by \<open>(N - 1)(N - 2)\<close> and
  checks neither divisor. On matrices with the same number \<open>N\<close> of rows: when \<open>N > 2\<close> every
  call of the correction returns a value, so no division by zero happens in it and
  \<open>linear_cka_distance\<close> raises no \<open>ZeroDivisionError\<close>; when \<open>N = 2\<close> the Python quotient
  \<open>size / (size - 2)\<close> raises \<open>ZeroDivisionError\<close>; when \<open>N < 2\<close> a tensor is divided by zero
  and the result is not finite (for \<open>N = 1\<close> the divisor \<open>(N - 1)(N - 2)\<close> is zero; for
  \<open>N = 0\<close> both divisors of the correction are non-zero, -2 and 2, and the zero divisor is
  that of the final quotient, the product of the corrected norms).
\<close>

theorem debiased_division_by_zero:
  assumes "tdim x0 = 2" "tdim y0 = 2" "nrows x0 = nrows y0"
  shows "(2 < nrows x0 \<longrightarrow>
            (\<forall>z. \<exists>v. debiased_dot_product_similarity z (row_sums (zero_mean x0))
                      (row_sums (zero_mean y0)) (sum_list (data (row_sums (zero_mean x0))))
                      (sum_list (data (row_sums (zero_mean y0)))) (int (nrows x0)) = Inr v)
            \<and> linear_cka_distance x0 y0 True \<noteq> Inl ZeroDivisionError)
         \<and> (nrows x0 = 2 \<longrightarrow> linear_cka_distance x0 y0 True = Inl ZeroDivisionError)
         \<and> (nrows x0 < 2 \<longrightarrow> linear_cka_distance x0 y0 True = Inl NonFinite)"
proof (intro conjI impI allI)
  note u = linear_cka_unfold [OF assms(3)]
  note m = row_sums_matmul [of "zero_mean x0" "zero_mean y0"]
  let ?c = "\<lambda>z. debiased_dot_product_similarity z (row_sums (zero_mean x0))
                    (row_sums (zero_mean y0)) (sum_list (data (row_sums (zero_mean x0))))
                    (sum_list (data (row_sums (zero_mean y0)))) (int (nrows x0))"
  {
    assume N: "2 < nrows x0"
    have nz: "int (nrows x0) - 2 \<noteq> 0" "(int (nrows x0) - 1) * (int (nrows x0) - 2) \<noteq> 0"
      using N by auto
    show ex: "\<exists>v. ?c z = Inr v" for z
      using nz assms(3) unfolding debiased_dot_product_similarity_def
      by (simp add: item_def m)
    obtain d where d: "?c ((fro (gram (zero_mean y0) (zero_mean x0)))\<^sup>2) = Inr d"
      using ex by blast
    obtain nx where nx: "?c ((fro (gram (zero_mean x0) (zero_mean x0)))\<^sup>2) = Inr nx"
      using ex by blast
    obtain ny where ny: "?c ((fro (gram (zero_mean y0) (zero_mean y0)))\<^sup>2) = Inr ny"
      using ex by blast
    show "linear_cka_distance x0 y0 True \<noteq> Inl ZeroDivisionError"
      unfolding u Let_def by (simp add: d nx ny)
  }
  show "linear_cka_distance x0 y0 True = Inl ZeroDivisionError" if "nrows x0 = 2"
    using that unfolding u by (simp add: Let_def debiased_dot_product_similarity_def)
  show "linear_cka_distance x0 y0 True = Inl NonFinite" if "nrows x0 < 2"
  proof (cases "nrows x0 = 0")
    case True
    then have "fro (gram (zero_mean x0) (zero_mean x0)) = 0"
      by (intro fro_gram_no_rows) simp
    moreover have "data (row_sums (zero_mean x0)) = []"
      using True by (simp add: row_sums_def)
    ultimately show ?thesis using True assms(3) unfolding u
      by (simp add: Let_def debiased_dot_product_similarity_def item_def m)
  next
    case False
    then have "nrows x0 = 1" using that by simp
    then show ?thesis using assms(3) unfolding u
      by (simp add: Let_def debiased_dot_product_similarity_def item_def m)
  qed
qed

theorem debiased_division_by_zero_witness:
  "linear_cka_distance cka_x cka_y True \<noteq> Inl ZeroDivisionError
   \<and> linear_cka_distance (matrix 2 1 (\<lambda>i j. real i)) (matrix 2 1 (\<lambda>i j. 1)) True
       = Inl ZeroDivisionError
   \<and> linear_cka_distance (matrix 1 2 (\<lambda>i j. real j)) (matrix 1 1 (\<lambda>i j. 5)) True
       = Inl NonFinite
   \<and> linear_cka_distance (matrix 0 2 (\<lambda>i j. 0)) (matrix 0 3 (\<lambda>i j. 0)) True = Inl NonFinite"
proof -
  have sh: "tdim cka_x = 2" "tdim cka_y = 2" "nrows cka_x = 3" "nrows cka_y = 3"
    by (simp_all add: cka_x_def cka_y_def)
  show ?thesis
    using debiased_division_by_zero [of cka_x cka_y]
      debiased_division_by_zero [of "matrix 2 1 (\<lambda>i j. real i)" "matrix 2 1 (\<lambda>i j. 1)"]
      debiased_division_by_zero [of "matrix 1 2 (\<lambda>i j. real j)" "matrix 1 1 (\<lambda>i j. 5)"]
      debiased_division_by_zero [of "matrix 0 2 (\<lambda>i j. 0)" "matrix 0 3 (\<lambda>i j. 0)"]
    by (simp add: sh)
qed

section \<open>The buffer of a hook\<close>

lemma cat0_shapes:
  "shape a = n # r \<Longrightarrow> shape b = k # r \<Longrightarrow>
   cat0 a b = Inr \<lparr>shape = (n + k) # r, data = data a @ data b\<rparr>"
  by (simp add: cat0_def)

lemma cat0_mismatch:
  assumes "tl (shape a) \<noteq> tl (shape b)"
  shows "cat0 a b = Inl RuntimeError"
  using assms by (auto simp: cat0_def split: list.splits)

lemma init_hooked:
  "init la m nm cd fc = Inr s \<Longrightarrow> hooked s = None"
  by (auto simp: init_def ebind_def
      split: if_splits sum.splits option.splits cca_distance_arg.splits)

text \<open>
  C8, as stated, at a capture event whose tensor does not fit the buffer: the buffer holds
  a tensor of shape [1, 2] and the module then gives a rank-2 tensor of shape [1, 3].
  \<open>torch.cat\<close> raises, and the buffer is neither set to the new tensor nor grown: it is
  left as it was.
\<close>

theorem hook_shape_mismatch_counterexample:
  "tdim \<lparr>shape = [1, 3], data = [1, 2, 3]\<rparr> = 2
   \<and> hook (lincka_hook (Some \<lparr>shape = [1, 2], data = [1, 2]\<rparr>)) ''cpu''
        \<lparr>shape = [1, 3], data = [1, 2, 3]\<rparr>
      = ((lincka_hook (Some \<lparr>shape = [1, 2], data = [1, 2]\<rparr>))\<lparr>device := Some ''cpu''\<rparr>,
         Some RuntimeError)
   \<and> cat0 \<lparr>shape = [1, 2], data = [1, 2]\<rparr> \<lparr>shape = [1, 3], data = [1, 2, 3]\<rparr> = Inl RuntimeError"
  by (simp add: hook_def lincka_hook_def supported_dim_def tdim_def cat0_def)

text \<open>
  C8, amended. The buffer is absent in the hook that \<open>__init__\<close> returns. A capture event
  with a rank-2 or rank-4 tensor sets an absent buffer to that tensor; it grows a present
  buffer by concatenation along dimension 0 when the tensor has the buffer's sizes in all
  other dimensions; otherwise \<open>torch.cat\<close> raises and the buffer is left as it was. No
  operation other than \<open>clear\<close> makes a present buffer absent, and \<open>clear\<close> does.
\<close>

theorem buffer_lifecycle:
  "(init la m nm cd fc = Inr s_new \<longrightarrow> hooked s_new = None)
   \<and> (tdim out_a \<in> {2, 4} \<and> hooked s_a = None \<longrightarrow>
        hook s_a dev_a out_a = (s_a\<lparr>device := Some dev_a, hooked := Some out_a\<rparr>, None))
   \<and> (tdim out_b \<in> {2, 4} \<and> hooked s_b = Some buf_b \<and> shape buf_b = n # r
        \<and> shape out_b = k # r \<longrightarrow>
        hook s_b dev_b out_b =
          (s_b\<lparr>device := Some dev_b,
               hooked := Some \<lparr>shape = (n + k) # r, data = data buf_b @ data out_b\<rparr>\<rparr>, None))
   \<and> (tdim out_c \<in> {2, 4} \<and> hooked s_c = Some buf_c \<and> tl (shape buf_c) \<noteq> tl (shape out_c) \<longrightarrow>
        hook s_c dev_c out_c = (s_c\<lparr>device := Some dev_c\<rparr>, Some RuntimeError))
   \<and> (op \<noteq> Clear \<and> hooked s_d \<noteq> None \<longrightarrow> hooked (run_op s_d op) \<noteq> None)
   \<and> hooked (clear s_e) = None"
proof (intro conjI impI)
  show "hooked s_new = None" if "init la m nm cd fc = Inr s_new"
    using that by (rule init_hooked)
  show "hook s_a dev_a out_a = (s_a\<lparr>device := Some dev_a, hooked := Some out_a\<rparr>, None)"
    if "tdim out_a \<in> {2, 4} \<and> hooked s_a = None"
    using that by (auto simp: hook_def supported_dim_def)
  show "hook s_b dev_b out_b =
          (s_b\<lparr>device := Some dev_b,
               hooked := Some \<lparr>shape = (n + k) # r, data = data buf_b @ data out_b\<rparr>\<rparr>, None)"
    if "tdim out_b \<in> {2, 4} \<and> hooked s_b = Some buf_b \<and> shape buf_b = n # r
        \<and> shape out_b = k # r"
    using that by (auto simp: hook_def supported_dim_def cat0_shapes)
  show "hook s_c dev_c out_c = (s_c\<lparr>device := Some dev_c\<rparr>, Some RuntimeError)"
    if "tdim out_c \<in> {2, 4} \<and> hooked s_c = Some buf_c \<and> tl (shape buf_c) \<noteq> tl (shape out_c)"
    using that by (auto simp: hook_def supported_dim_def cat0_mismatch)
  show "hooked (run_op s_d op) \<noteq> None" if "op \<noteq> Clear \<and> hooked s_d \<noteq> None"
  proof (cases op)
    case (Forward dv outp)
    then show ?thesis using that
      by (auto simp: hook_def Let_def split: option.splits sum.splits)
  qed (use that in auto)
  show "hooked (clear s_e) = None"
    by (simp add: clear_def)
qed

theorem buffer_lifecycle_witness:
  "init no_linalg fc_model ''fc'' (Some (ByName ''lincka'')) False = Inr (lincka_hook None)
   \<and> hooked (lincka_hook None) = None
   \<and> hook (lincka_hook None) ''cpu'' \<lparr>shape = [1, 2], data = [1, 2]\<rparr>
       = (lincka_hook (Some \<lparr>shape = [1, 2], data = [1, 2]\<rparr>)\<lparr>device := Some ''cpu''\<rparr>, None)
   \<and> hook (lincka_hook (Some \<lparr>shape = [1, 2], data = [1, 2]\<rparr>)) ''cpu''
        \<lparr>shape = [2, 2], data = [3, 4, 5, 6]\<rparr>
       = (lincka_hook (Some \<lparr>shape = [3, 2], data = [1, 2, 3, 4, 5, 6]\<rparr>)
            \<lparr>device := Some ''cpu''\<rparr>, None)
   \<and> hook (lincka_hook (Some \<lparr>shape = [1, 2], data = [1, 2]\<rparr>)) ''cpu''
        \<lparr>shape = [1, 3], data = [1, 2, 3]\<rparr>
       = (lincka_hook (Some \<lparr>shape = [1, 2], data = [1, 2]\<rparr>)\<lparr>device := Some ''cpu''\<rparr>,
          Some RuntimeError)
   \<and> hooked (run_op (lincka_hook (Some \<lparr>shape = [1, 2], data = [1, 2]\<rparr>))
               (Forward ''cpu'' \<lparr>shape = [1, 3], data = [1, 2, 3]\<rparr>)) \<noteq> None
   \<and> hooked (clear (lincka_hook (Some \<lparr>shape = [1, 2], data = [1, 2]\<rparr>))) = None"
proof -
  have i: "init no_linalg fc_model ''fc'' (Some (ByName ''lincka'')) False = Inr (lincka_hook None)"
    by (simp add: init_def fc_model_def default_backends_def lincka_hook_def)
  show ?thesis
    using buffer_lifecycle [where la = no_linalg and m = fc_model and nm = "''fc''"
        and cd = "Some (ByName ''lincka'')" and fc = False and s_new = "lincka_hook None"
        and out_a = "\<lparr>shape = [1, 2], data = [1, 2]\<rparr>" and s_a = "lincka_hook None"
        and dev_a = "''cpu''"
        and out_b = "\<lparr>shape = [2, 2], data = [3, 4, 5, 6]\<rparr>"
        and s_b = "lincka_hook (Some \<lparr>shape = [1, 2], data = [1, 2]\<rparr>)"
        and buf_b = "\<lparr>shape = [1, 2], data = [1, 2]\<rparr>" and n = 1 and r = "[2]" and k = 2
        and dev_b = "''cpu''"
        and out_c = "\<lparr>shape = [1, 3], data = [1, 2, 3]\<rparr>"
        and s_c = "lincka_hook (Some \<lparr>shape = [1, 2], data = [1, 2]\<rparr>)"
        and buf_c = "\<lparr>shape = [1, 2], data = [1, 2]\<rparr>" and dev_c = "''cpu''"
        and op = "Forward ''cpu'' \<lparr>shape = [1, 3], data = [1, 2, 3]\<rparr>"
        and s_d = "lincka_hook (Some \<lparr>shape = [1, 2], data = [1, 2]\<rparr>)"
        and s_e = "lincka_hook (Some \<lparr>shape = [1, 2], data = [1, 2]\<rparr>)"]
    by (simp add: i tdim_def lincka_hook_def)
qed

section \<open>The reduction by singular values\<close>

text \<open>
  C2. \<open>_svd_reduction\<close> on the diagonal matrix with the singular values 3 and 1, whose
  cumulative normalised masses are 3/4 and 1. With \<open>accept_rate = 0.99\<close> the smallest number
  of directions whose mass reaches 0.99 is 2; the code counts the ratios below
  \<open>accept_rate\<close> and keeps that many, here 1 direction of mass 3/4. With
  \<open>accept_rate = 0.5\<close> it keeps no direction at all and returns a matrix without columns.
\<close>

theorem svd_reduction_keeps_too_few:
  "is_svd x31 (svd svd31 x31)
   \<and> num_retained [3, 1] (99 / 100) = 1
   \<and> svd_reduction svd31 x31 (99 / 100) = Inr \<lparr>shape = [2, 1], data = [3, 0]\<rparr>
   \<and> (3 :: real) / (3 + 1) < 99 / 100
   \<and> num_retained [3, 1] (1 / 2) = 0
   \<and> svd_reduction svd31 x31 (1 / 2) = Inr \<lparr>shape = [2, 0], data = []\<rparr>"
  by code_simp

section \<open>Claims about fourier.py\<close>

text \<open>
  C6. On a tensor with the odd extent 3 along a shifted axis, \<open>fft_shift\<close> followed by
  \<open>ifft_shift\<close>, and \<open>ifft_shift\<close> followed by \<open>fft_shift\<close>, do not give the tensor back:
  \<open>fft_shift\<close> rolls by 3 // 2 = 1 and \<open>ifft_shift\<close> by -3 // 2 = -2, which leaves a roll
  by -1. The same happens on a vector of length 3 with the axis given.
\<close>

theorem shift_roundtrip_odd:
  "ebind (fft_shift odd_tensor None) (\<lambda>y. ifft_shift y None)
     = Inr \<lparr>shape = [1, 3, 1, 2], data = [3, 4, 5, 6, 1, 2]\<rparr>
   \<and> ebind (ifft_shift odd_tensor None) (\<lambda>y. fft_shift y None)
     = Inr \<lparr>shape = [1, 3, 1, 2], data = [3, 4, 5, 6, 1, 2]\<rparr>
   \<and> ebind (fft_shift \<lparr>shape = [3], data = [1, 2, 3]\<rparr> (Some [0])) (\<lambda>y. ifft_shift y (Some [0]))
     = Inr \<lparr>shape = [3], data = [2, 3, 1]\<rparr>"
  by code_simp

lemma clamp01_range: "0 \<le> clamp01 v \<and> clamp01 v \<le> 1"
  by (simp add: clamp01_def)

lemma add_clamp_range:
  assumes "add_clamp images recon = Inr result"
  shows "\<forall>v\<in>set (data result). 0 \<le> v \<and> v \<le> 1"
  using assms by (auto simp: add_clamp_def clamp01_range split: if_splits)

text \<open>
  C10. \<open>add_fourier_noise\<close> leaves every tensor of the store as it was, the images passed
  in among them, whether it returns or raises: it only adds tensors. When it returns, the
  tensor returned is a new one, not the one passed in, and all its entries lie
  in [0, 1]. (A call that divides by a zero norm has the outcome \<open>NonFinite\<close> and is not
  a return here.)
\<close>

theorem add_fourier_noise_frame:
  assumes "images0 < length st"
  shows "case add_fourier_noise ext idx images0 nrm sz st of
           (st', res) \<Rightarrow>
             length st \<le> length st' \<and> (\<forall>a<length st. st' ! a = st ! a)
             \<and> (case res of
                  Inl e \<Rightarrow> True
                | Inr r \<Rightarrow> r = length st \<and> r \<noteq> images0 \<and> r < length st'
                           \<and> (\<forall>v\<in>set (data (st' ! r)). 0 \<le> v \<and> v \<le> 1))"
  using assms
  by (auto simp: add_fourier_noise_def Let_def nth_append add_clamp_range
      split: sum.splits option.splits list.splits prod.splits)

lemma fourier_recon_steps:
  assumes "assign_one \<lparr>shape = [1, h, w, 2], data = replicate (h * w * 2) 0\<rparr> (fst idx) (snd idx)
             = Inr n1"
    and "assign_one n1 (int h - 1 - fst idx) (int w - 1 - snd idx) = Inr n2"
    and "ifft_shift n2 None = Inr n3"
    and "irfft2 ext n3 = Inr r"
    and "fro (r\<lparr>shape := 1 # shape r\<rparr>) = c" "c \<noteq> 0"
  shows "fourier_recon ext idx h w nrm None
           = Inr (r\<lparr>shape := 1 # shape r, data := map (\<lambda>v. v / c * nrm) (data r)\<rparr>)"
  using assms by (simp add: fourier_recon_def)

lemma recon_one_pixel:
  "fourier_recon real_part_ext (0, 0) 1 1 1 None = Inr \<lparr>shape = [1, 1, 1, 1], data = [1]\<rparr>"
proof -
  have 1: "assign_one \<lparr>shape = [1, 1, 1, 2], data = replicate (1 * 1 * 2) 0\<rparr>
             (fst (0, 0)) (snd (0, 0)) = Inr \<lparr>shape = [1, 1, 1, 2], data = [1, 1]\<rparr>"
    by code_simp
  have 2: "assign_one \<lparr>shape = [1, 1, 1, 2], data = [1, 1]\<rparr>
             (int 1 - 1 - fst (0, 0)) (int 1 - 1 - snd (0, 0))
           = Inr \<lparr>shape = [1, 1, 1, 2], data = [1, 1]\<rparr>"
    by code_simp
  have 3: "ifft_shift \<lparr>shape = [1, 1, 1, 2], data = [1, 1]\<rparr> None
           = Inr \<lparr>shape = [1, 1, 1, 2], data = [1, 1]\<rparr>"
    by code_simp
  have 4: "irfft2 real_part_ext \<lparr>shape = [1, 1, 1, 2], data = [1, 1]\<rparr>
           = Inr \<lparr>shape = [1, 1, 1], data = [1]\<rparr>"
    by code_simp
  have 5: "fro (\<lparr>shape = [1, 1, 1], data = [1]\<rparr>
                 \<lparr>shape := 1 # shape \<lparr>shape = [1, 1, 1], data = [1]\<rparr>\<rparr>) = 1"
    by (simp add: fro_def)
  show ?thesis
    using fourier_recon_steps [OF 1 2 3 4 5, of 1] by simp
qed

lemma add_fourier_noise_one_pixel:
  "add_fourier_noise real_part_ext (0, 0) 0 1 None [half_image]
     = ([half_image, \<lparr>shape = [1, 1, 1, 1], data = [1]\<rparr>], Inr 1)"
  using recon_one_pixel
  by (simp add: add_fourier_noise_def half_image_def add_clamp_def tdim_def clamp01_def)

theorem add_fourier_noise_frame_witness:
  "fst (add_fourier_noise real_part_ext (0, 0) 0 1 None [half_image]) ! 0 = half_image
   \<and> snd (add_fourier_noise real_part_ext (0, 0) 0 1 None [half_image]) = Inr 1
   \<and> list_all (\<lambda>v. 0 \<le> v \<and> v \<le> 1)
        (data (fst (add_fourier_noise real_part_ext (0, 0) 0 1 None [half_image]) ! 1))"
  using add_fourier_noise_frame [of 0 "[half_image]" real_part_ext "(0, 0)" 1 None]
  by (simp add: add_fourier_noise_one_pixel)

section \<open>The orthogonal Procrustes distance\<close>

lemma sum_delta_pick:
  fixes f :: "nat \<Rightarrow> real"
  assumes "l < K"
  shows "(\<Sum>m<K. f m * (if l = m then 1 else 0)) = f l"
    and "(\<Sum>m<K. f m * (if m = l then 1 else 0)) = f l"
    and "(\<Sum>m<K. (if l = m then 1 else 0) * f m) = f l"
    and "(\<Sum>m<K. (if m = l then 1 else 0) * f m) = f l"
proof -
  have a: "(\<Sum>m<K. if m = l then f m else 0) = f l"
    using assms by (simp add: sum.delta)
  have "(\<Sum>m<K. f m * (if l = m then 1 else 0)) = (\<Sum>m<K. if m = l then f m else 0)"
    by (intro sum.cong) auto
  then show "(\<Sum>m<K. f m * (if l = m then 1 else 0)) = f l" using a by simp
  have "(\<Sum>m<K. f m * (if m = l then 1 else 0)) = (\<Sum>m<K. if m = l then f m else 0)"
    by (intro sum.cong) auto
  then show "(\<Sum>m<K. f m * (if m = l then 1 else 0)) = f l" using a by simp
  have "(\<Sum>m<K. (if l = m then 1 else 0) * f m) = (\<Sum>m<K. if m = l then f m else 0)"
    by (intro sum.cong) auto
  then show "(\<Sum>m<K. (if l = m then 1 else 0) * f m) = f l" using a by simp
  have "(\<Sum>m<K. (if m = l then 1 else 0) * f m) = (\<Sum>m<K. if m = l then f m else 0)"
    by (intro sum.cong) auto
  then show "(\<Sum>m<K. (if m = l then 1 else 0) * f m) = f l" using a by simp
qed

lemma young: "a * b \<le> (a\<^sup>2 + b\<^sup>2) / (2::real)"
proof -
  have "0 \<le> (a - b)\<^sup>2" by simp
  then show ?thesis by (simp add: power2_eq_square algebra_simps)
qed

text \<open>Bessel's inequality for a family of orthonormal columns.\<close>

lemma bessel:
  fixes U :: "nat \<Rightarrow> nat \<Rightarrow> real"
  assumes UU: "\<And>l m. l < K \<Longrightarrow> m < K \<Longrightarrow> (\<Sum>i<D. U i l * U i m) = (if l = m then 1 else 0)"
  shows "(\<Sum>l<K. (\<Sum>i<D. r i * U i l)\<^sup>2) \<le> (\<Sum>i<D. (r i)\<^sup>2)"
proof -
  define p where "p l = (\<Sum>i<D. r i * U i l)" for l
  define q where "q i = (\<Sum>l<K. p l * U i l)" for i
  have rq: "(\<Sum>i<D. r i * q i) = (\<Sum>l<K. (p l)\<^sup>2)"
  proof -
    have "(\<Sum>i<D. r i * q i) = (\<Sum>i<D. \<Sum>l<K. p l * (r i * U i l))"
      by (simp add: q_def sum_distrib_left mult_ac)
    also have "\<dots> = (\<Sum>l<K. \<Sum>i<D. p l * (r i * U i l))"
      by (rule sum.swap)
    also have "\<dots> = (\<Sum>l<K. p l * p l)"
      by (simp add: p_def sum_distrib_left)
    finally show ?thesis by (simp add: power2_eq_square)
  qed
  have qq: "(\<Sum>i<D. (q i)\<^sup>2) = (\<Sum>l<K. (p l)\<^sup>2)"
  proof -
    have "(\<Sum>i<D. (q i)\<^sup>2) = (\<Sum>i<D. \<Sum>l<K. \<Sum>m<K. p l * p m * (U i l * U i m))"
      by (simp add: q_def power2_eq_square sum_product mult_ac)
    also have "\<dots> = (\<Sum>l<K. \<Sum>i<D. \<Sum>m<K. p l * p m * (U i l * U i m))"
      by (rule sum.swap)
    also have "\<dots> = (\<Sum>l<K. \<Sum>m<K. \<Sum>i<D. p l * p m * (U i l * U i m))"
      by (intro sum.cong refl sum.swap)
    also have "\<dots> = (\<Sum>l<K. \<Sum>m<K. p l * p m * (if l = m then 1 else 0))"
      by (intro sum.cong refl) (simp add: sum_distrib_left [symmetric] UU)
    also have "\<dots> = (\<Sum>l<K. p l * p l)"
      by (intro sum.cong refl) (simp add: mult.assoc sum_distrib_left [symmetric] sum_delta_pick)
    finally show ?thesis by (simp add: power2_eq_square)
  qed
  have "0 \<le> (\<Sum>i<D. (r i - q i)\<^sup>2)"
    by (intro sum_nonneg) simp
  also have "(\<Sum>i<D. (r i - q i)\<^sup>2) = (\<Sum>i<D. (r i)\<^sup>2) - 2 * (\<Sum>i<D. r i * q i) + (\<Sum>i<D. (q i)\<^sup>2)"
    by (simp add: power2_diff sum.distrib sum_subtractf sum_distrib_left mult_ac)
  finally show ?thesis
    unfolding rq qq p_def by simp
qed


text \<open>The singular values of a product are the diagonal of the product in the two bases.\<close>

lemma singular_value_as_sum:
  fixes U V :: "nat \<Rightarrow> nat \<Rightarrow> real"
  assumes UU: "\<And>l m. l < K \<Longrightarrow> m < K \<Longrightarrow> (\<Sum>i<D1. U i l * U i m) = (if l = m then 1 else 0)"
    and VV: "\<And>l m. l < K \<Longrightarrow> m < K \<Longrightarrow> (\<Sum>j<D2. V j l * V j m) = (if l = m then 1 else 0)"
    and l: "l < K"
  shows "(\<Sum>i<D1. \<Sum>j<D2. U i l * (\<Sum>m<K. U i m * s m * V j m) * V j l) = s l"
proof -
  have "(\<Sum>i<D1. \<Sum>j<D2. U i l * (\<Sum>m<K. U i m * s m * V j m) * V j l)
        = (\<Sum>i<D1. \<Sum>j<D2. \<Sum>m<K. s m * (U i l * U i m) * (V j m * V j l))"
    by (simp add: sum_distrib_left sum_distrib_right mult_ac)
  also have "\<dots> = (\<Sum>i<D1. \<Sum>m<K. \<Sum>j<D2. s m * (U i l * U i m) * (V j m * V j l))"
    by (intro sum.cong refl sum.swap)
  also have "\<dots> = (\<Sum>m<K. \<Sum>i<D1. \<Sum>j<D2. s m * (U i l * U i m) * (V j m * V j l))"
    by (rule sum.swap)
  also have "\<dots> = (\<Sum>m<K. s m * (\<Sum>i<D1. U i l * U i m) * (\<Sum>j<D2. V j m * V j l))"
    by (simp add: sum_distrib_left sum_distrib_right mult_ac)
  also have "\<dots> = (\<Sum>m<K. s m * (if l = m then 1 else 0) * (if m = l then 1 else 0))"
    using l by (intro sum.cong refl) (simp add: UU VV)
  also have "\<dots> = (\<Sum>m<K. s m * (if m = l then 1 else 0))"
    by (intro sum.cong refl) simp
  also have "\<dots> = s l"
    using l by (rule sum_delta_pick)
  finally show ?thesis .
qed

lemma sum_singular_values_le:
  fixes U V X Y :: "nat \<Rightarrow> nat \<Rightarrow> real"
  assumes A: "\<And>i j. i < D1 \<Longrightarrow> j < D2 \<Longrightarrow>
                (\<Sum>m<K. U i m * s m * V j m) = (\<Sum>k<N. X k i * Y k j)"
    and UU: "\<And>l m. l < K \<Longrightarrow> m < K \<Longrightarrow> (\<Sum>i<D1. U i l * U i m) = (if l = m then 1 else 0)"
    and VV: "\<And>l m. l < K \<Longrightarrow> m < K \<Longrightarrow> (\<Sum>j<D2. V j l * V j m) = (if l = m then 1 else 0)"
  shows "(\<Sum>l<K. s l) \<le> ((\<Sum>k<N. \<Sum>i<D1. (X k i)\<^sup>2) + (\<Sum>k<N. \<Sum>j<D2. (Y k j)\<^sup>2)) / 2"
proof -
  define P where "P k l = (\<Sum>i<D1. X k i * U i l)" for k l
  define Q where "Q k l = (\<Sum>j<D2. Y k j * V j l)" for k l
  have sl: "s l = (\<Sum>k<N. P k l * Q k l)" if "l < K" for l
  proof -
    have "s l = (\<Sum>i<D1. \<Sum>j<D2. U i l * (\<Sum>m<K. U i m * s m * V j m) * V j l)"
      using singular_value_as_sum [OF UU VV that, of s] by simp
    also have "\<dots> = (\<Sum>i<D1. \<Sum>j<D2. U i l * (\<Sum>k<N. X k i * Y k j) * V j l)"
      by (intro sum.cong refl) (simp add: A)
    also have "\<dots> = (\<Sum>i<D1. \<Sum>j<D2. \<Sum>k<N. (X k i * U i l) * (Y k j * V j l))"
      by (simp add: sum_distrib_left sum_distrib_right mult_ac)
    also have "\<dots> = (\<Sum>i<D1. \<Sum>k<N. \<Sum>j<D2. (X k i * U i l) * (Y k j * V j l))"
      by (intro sum.cong refl sum.swap)
    also have "\<dots> = (\<Sum>k<N. \<Sum>i<D1. \<Sum>j<D2. (X k i * U i l) * (Y k j * V j l))"
      by (rule sum.swap)
    also have "\<dots> = (\<Sum>k<N. P k l * Q k l)"
      by (simp add: P_def Q_def sum_product)
    finally show ?thesis .
  qed
  have "(\<Sum>l<K. s l) = (\<Sum>l<K. \<Sum>k<N. P k l * Q k l)"
    by (intro sum.cong refl) (simp add: sl)
  also have "\<dots> \<le> (\<Sum>l<K. \<Sum>k<N. ((P k l)\<^sup>2 + (Q k l)\<^sup>2) / 2)"
    by (intro sum_mono young)
  also have "\<dots> = ((\<Sum>k<N. \<Sum>l<K. (P k l)\<^sup>2) + (\<Sum>k<N. \<Sum>l<K. (Q k l)\<^sup>2)) / 2"
  proof -
    have "(\<Sum>l<K. \<Sum>k<N. ((P k l)\<^sup>2 + (Q k l)\<^sup>2) / 2)
          = (\<Sum>k<N. \<Sum>l<K. ((P k l)\<^sup>2 + (Q k l)\<^sup>2) / 2)"
      by (rule sum.swap)
    then show ?thesis
      by (simp add: sum.distrib sum_divide_distrib [symmetric] add_divide_distrib)
  qed
  also have "\<dots> \<le> ((\<Sum>k<N. \<Sum>i<D1. (X k i)\<^sup>2) + (\<Sum>k<N. \<Sum>j<D2. (Y k j)\<^sup>2)) / 2"
  proof -
    have "(\<Sum>k<N. \<Sum>l<K. (P k l)\<^sup>2) \<le> (\<Sum>k<N. \<Sum>i<D1. (X k i)\<^sup>2)"
      unfolding P_def by (intro sum_mono bessel UU)
    moreover have "(\<Sum>k<N. \<Sum>l<K. (Q k l)\<^sup>2) \<le> (\<Sum>k<N. \<Sum>j<D2. (Y k j)\<^sup>2)"
      unfolding Q_def by (intro sum_mono bessel VV)
    ultimately show ?thesis by simp
  qed
  finally show ?thesis .
qed


lemma sum_singular_values_ge:
  fixes U V X Y R :: "nat \<Rightarrow> nat \<Rightarrow> real"
  assumes A: "\<And>i j. i < D \<Longrightarrow> j < D \<Longrightarrow>
                (\<Sum>m<K. U i m * s m * V j m) = (\<Sum>k<N. X k i * Y k j)"
    and Y: "\<And>k j. k < N \<Longrightarrow> j < D \<Longrightarrow> Y k j = (\<Sum>i<D. X k i * R i j)"
    and RRt: "\<And>i m. i < D \<Longrightarrow> m < D \<Longrightarrow> (\<Sum>j<D. R i j * R m j) = (if i = m then 1 else 0)"
    and RtR: "\<And>j m. j < D \<Longrightarrow> m < D \<Longrightarrow> (\<Sum>i<D. R i j * R i m) = (if j = m then 1 else 0)"
    and U1: "\<And>l. l < K \<Longrightarrow> (\<Sum>i<D. (U i l)\<^sup>2) = 1"
    and V1: "\<And>l. l < K \<Longrightarrow> (\<Sum>j<D. (V j l)\<^sup>2) = 1"
    and s0: "\<And>l. l < K \<Longrightarrow> 0 \<le> s l"
  shows "(\<Sum>k<N. \<Sum>i<D. (X k i)\<^sup>2) \<le> (\<Sum>l<K. s l)"
proof -
  define W where "W i l = (\<Sum>j<D. R i j * V j l)" for i l
  define T where "T = (\<Sum>i<D. \<Sum>j<D. (\<Sum>k<N. X k i * Y k j) * R i j)"
  have YR: "(\<Sum>j<D. Y k j * R i j) = X k i" if "k < N" "i < D" for k i
  proof -
    have "(\<Sum>j<D. Y k j * R i j) = (\<Sum>j<D. (\<Sum>m<D. X k m * R m j) * R i j)"
      using that by (intro sum.cong refl) (simp add: Y)
    also have "\<dots> = (\<Sum>j<D. \<Sum>m<D. X k m * (R m j * R i j))"
      by (simp add: sum_distrib_left sum_distrib_right mult_ac)
    also have "\<dots> = (\<Sum>m<D. \<Sum>j<D. X k m * (R m j * R i j))"
      by (rule sum.swap)
    also have "\<dots> = (\<Sum>m<D. X k m * (if m = i then 1 else 0))"
      using that by (intro sum.cong refl) (simp add: sum_distrib_left [symmetric] RRt)
    also have "\<dots> = X k i"
      using that by (simp add: sum_delta_pick)
    finally show ?thesis .
  qed
  have T1: "T = (\<Sum>k<N. \<Sum>i<D. (X k i)\<^sup>2)"
  proof -
    have "T = (\<Sum>i<D. \<Sum>j<D. \<Sum>k<N. X k i * (Y k j * R i j))"
      by (simp add: T_def sum_distrib_left sum_distrib_right mult_ac)
    also have "\<dots> = (\<Sum>i<D. \<Sum>k<N. \<Sum>j<D. X k i * (Y k j * R i j))"
      by (intro sum.cong refl sum.swap)
    also have "\<dots> = (\<Sum>i<D. \<Sum>k<N. X k i * X k i)"
      by (intro sum.cong refl) (simp add: sum_distrib_left [symmetric] YR)
    also have "\<dots> = (\<Sum>k<N. \<Sum>i<D. X k i * X k i)"
      by (rule sum.swap)
    finally show ?thesis by (simp add: power2_eq_square)
  qed
  have WW: "(\<Sum>i<D. (W i l)\<^sup>2) = 1" if "l < K" for l
  proof -
    have "(\<Sum>i<D. (W i l)\<^sup>2) = (\<Sum>i<D. \<Sum>j<D. \<Sum>m<D. V j l * V m l * (R i j * R i m))"
      by (simp add: W_def power2_eq_square sum_product mult_ac)
    also have "\<dots> = (\<Sum>j<D. \<Sum>i<D. \<Sum>m<D. V j l * V m l * (R i j * R i m))"
      by (rule sum.swap)
    also have "\<dots> = (\<Sum>j<D. \<Sum>m<D. \<Sum>i<D. V j l * V m l * (R i j * R i m))"
      by (intro sum.cong refl sum.swap)
    also have "\<dots> = (\<Sum>j<D. \<Sum>m<D. V j l * V m l * (if j = m then 1 else 0))"
      by (intro sum.cong refl) (simp add: sum_distrib_left [symmetric] RtR)
    also have "\<dots> = (\<Sum>j<D. V j l * V j l)"
      by (intro sum.cong refl) (simp add: mult.assoc sum_distrib_left [symmetric] sum_delta_pick)
    finally show ?thesis using V1 [OF that] by (simp add: power2_eq_square)
  qed
  have T2: "T = (\<Sum>l<K. s l * (\<Sum>i<D. U i l * W i l))"
  proof -
    have "T = (\<Sum>i<D. \<Sum>j<D. (\<Sum>m<K. U i m * s m * V j m) * R i j)"
      unfolding T_def by (intro sum.cong refl) (simp add: A)
    also have "\<dots> = (\<Sum>i<D. \<Sum>j<D. \<Sum>l<K. s l * (U i l * (R i j * V j l)))"
      by (simp add: sum_distrib_left sum_distrib_right mult_ac)
    also have "\<dots> = (\<Sum>i<D. \<Sum>l<K. \<Sum>j<D. s l * (U i l * (R i j * V j l)))"
      by (intro sum.cong refl sum.swap)
    also have "\<dots> = (\<Sum>l<K. \<Sum>i<D. \<Sum>j<D. s l * (U i l * (R i j * V j l)))"
      by (rule sum.swap)
    also have "\<dots> = (\<Sum>l<K. s l * (\<Sum>i<D. U i l * W i l))"
      by (simp add: W_def sum_distrib_left)
    finally show ?thesis .
  qed
  have "(\<Sum>i<D. U i l * W i l) \<le> 1" if "l < K" for l
  proof -
    have "(\<Sum>i<D. U i l * W i l) \<le> (\<Sum>i<D. ((U i l)\<^sup>2 + (W i l)\<^sup>2) / 2)"
      by (intro sum_mono young)
    also have "\<dots> = ((\<Sum>i<D. (U i l)\<^sup>2) + (\<Sum>i<D. (W i l)\<^sup>2)) / 2"
      by (simp add: sum.distrib sum_divide_distrib [symmetric])
    finally show ?thesis using U1 [OF that] WW [OF that] by simp
  qed
  then have "(\<Sum>l<K. s l * (\<Sum>i<D. U i l * W i l)) \<le> (\<Sum>l<K. s l * 1)"
    by (intro sum_mono mult_left_mono s0) auto
  then show ?thesis using T1 T2 by simp
qed

lemma sum_flat_index:
  fixes h :: "nat \<Rightarrow> nat \<Rightarrow> real"
  shows "(\<Sum>k<n * d. h (k div d) (k mod d)) = (\<Sum>i<n. \<Sum>j<d. h i j)"
proof -
  have inner: "(\<Sum>k = i * d..<i * d + d. h (k div d) (k mod d)) = (\<Sum>j<d. h i j)" for i
  proof -
    have "(\<Sum>k = i * d..<i * d + d. h (k div d) (k mod d))
          = (\<Sum>j = 0..<d. h ((j + i * d) div d) ((j + i * d) mod d))"
      using sum.shift_bounds_nat_ivl [of "\<lambda>k. h (k div d) (k mod d)" 0 "i * d" d]
      by (simp add: add.commute)
    also have "\<dots> = (\<Sum>j = 0..<d. h i j)"
      by (intro sum.cong refl) auto
    finally show ?thesis
      by (simp add: atLeast0LessThan)
  qed
  have "(\<Sum>k<n * d. h (k div d) (k mod d))
        = (\<Sum>i<n. \<Sum>k = i * d..<i * d + d. h (k div d) (k mod d))"
    by (rule sum.nat_group [symmetric])
  then show ?thesis by (simp add: inner)
qed

lemma sum_sq_matrix:
  "(\<Sum>v\<leftarrow>data (matrix n d g). v\<^sup>2) = (\<Sum>i<n. \<Sum>j<d. (g i j)\<^sup>2)"
proof -
  have "(\<Sum>v\<leftarrow>data (matrix n d g). v\<^sup>2) = (\<Sum>k<n * d. (g (k div d) (k mod d))\<^sup>2)"
    by (simp add: matrix_def comp_def interv_sum_list_conv_sum_set_nat atLeast0LessThan)
  then show ?thesis
    using sum_flat_index [where n = n and d = d and h = "\<lambda>i j. (g i j)\<^sup>2"] by simp
qed

lemma scale_matrix: "scale c (matrix n d g) = matrix n d (\<lambda>i j. c * g i j)"
  by (simp add: scale_def matrix_def)

lemma zero_mean_matrix:
  "zero_mean x = matrix (nrows x) (ncols x) (\<lambda>i j. entry (zero_mean x) i j)"
  unfolding zero_mean_def by (rule matrix_cong) simp

lemma matrix_normalize_eq:
  assumes "fro (zero_mean x) \<noteq> 0"
  shows "matrix_normalize x
         = Inr (matrix (nrows x) (ncols x) (\<lambda>i j. entry (zero_mean x) i j / fro (zero_mean x)))"
proof -
  have "data (zero_mean x) \<noteq> []"
    using assms by (auto simp: fro_def)
  moreover have "scale (1 / fro (zero_mean x)) (zero_mean x)
      = matrix (nrows x) (ncols x) (\<lambda>i j. entry (zero_mean x) i j / fro (zero_mean x))"
    by (subst zero_mean_matrix) (simp add: scale_matrix)
  ultimately show ?thesis using assms by (simp add: matrix_normalize_def Let_def)
qed

lemma normalized_unit:
  assumes "fro (zero_mean x) \<noteq> 0" "matrix_normalize x = Inr xn"
  shows "(\<Sum>k<nrows x. \<Sum>i<ncols x. (entry xn k i)\<^sup>2) = 1"
    and "tdim xn = 2" "nrows xn = nrows x" "ncols xn = ncols x"
proof -
  let ?f = "fro (zero_mean x)"
  have xn: "xn = matrix (nrows x) (ncols x) (\<lambda>i j. entry (zero_mean x) i j / ?f)"
    using assms matrix_normalize_eq by simp
  show "tdim xn = 2" "nrows xn = nrows x" "ncols xn = ncols x"
    by (simp_all add: xn)
  have "?f\<^sup>2 = (\<Sum>k<nrows x. \<Sum>i<ncols x. (entry (zero_mean x) k i)\<^sup>2)"
    by (subst zero_mean_matrix) (simp add: fro_sq sum_sq_matrix)
  moreover have "(\<Sum>k<nrows x. \<Sum>i<ncols x. (entry xn k i)\<^sup>2)
        = (\<Sum>k<nrows x. \<Sum>i<ncols x. (entry (zero_mean x) k i)\<^sup>2) / ?f\<^sup>2"
    by (simp add: xn power_divide sum_divide_distrib)
  moreover have "?f\<^sup>2 \<noteq> 0"
    using assms by simp
  ultimately show "(\<Sum>k<nrows x. \<Sum>i<ncols x. (entry xn k i)\<^sup>2) = 1"
    by (metis div_self)
qed

lemma procrustes_unfold:
  assumes "tdim x = 2" "tdim y = 2" "nrows x = nrows y"
    and "fro (zero_mean x) \<noteq> 0" "fro (zero_mean y) \<noteq> 0"
    and "matrix_normalize x = Inr xn" "matrix_normalize y = Inr yn"
  shows "orthogonal_procrustes_distance la x y = Inr (1 - nuclear_norm la (gram xn yn))"
proof -
  have "tdim xn = 2" "tdim yn = 2" "nrows xn = nrows yn"
    using normalized_unit(2,3) [OF assms(4,6)] normalized_unit(2,3) [OF assms(5,7)] assms(3)
    by simp_all
  then show ?thesis
    using assms matmul_tr [of xn yn]
    by (simp add: orthogonal_procrustes_distance_def Let_def tr_def)
qed

lemma matrix_eqD:
  assumes "matrix n d f = matrix n d g" "i < n" "j < d"
  shows "f i j = g i j"
proof -
  have "entry (matrix n d f) i j = entry (matrix n d g) i j"
    using assms(1) by simp
  then show ?thesis using assms(2,3) by simp
qed

lemma entry_identity:
  "l < k \<Longrightarrow> m < k \<Longrightarrow> entry (identity k) l m = (if l = m then 1 else 0)"
  by (simp add: identity_def)

lemma gram_identityD:
  assumes "gram u u = identity k" "ncols u = k" "l < k" "m < k"
  shows "(\<Sum>i<nrows u. entry u i l * entry u i m) = (if l = m then 1 else 0)"
proof -
  have "entry (gram u u) l m = entry (identity k) l m"
    using assms(1) by simp
  then show ?thesis
    using assms(2-4) by (simp add: gram_def entry_identity)
qed

lemma is_svd_gramD:
  assumes svd: "is_svd (gram a b) (u, s, v)"
  defines "K \<equiv> min (ncols a) (ncols b)"
  shows "\<And>i j. i < ncols a \<Longrightarrow> j < ncols b \<Longrightarrow>
           (\<Sum>l<K. entry u i l * data s ! l * entry v j l) = (\<Sum>k<nrows a. entry a k i * entry b k j)"
    and "\<And>l m. l < K \<Longrightarrow> m < K \<Longrightarrow>
           (\<Sum>i<ncols a. entry u i l * entry u i m) = (if l = m then 1 else 0)"
    and "\<And>l m. l < K \<Longrightarrow> m < K \<Longrightarrow>
           (\<Sum>j<ncols b. entry v j l * entry v j m) = (if l = m then 1 else 0)"
    and "\<And>l. l < K \<Longrightarrow> 0 \<le> data s ! l"
    and "sum_list (data s) = (\<Sum>l<K. data s ! l)"
proof -
  have sh: "shape u = [ncols a, K]" "shape v = [ncols b, K]" "shape s = [K]" "wf s"
    and uu: "gram u u = identity K" and vv: "gram v v = identity K"
    and pos: "list_all (\<lambda>e. 0 \<le> e) (data s)"
    and eq: "gram a b = matrix (ncols a) (ncols b)
               (\<lambda>i j. \<Sum>l<K. entry u i l * data s ! l * entry v j l)"
    using svd unfolding is_svd_def K_def by (simp_all add: Let_def gram_def)
  have dims: "nrows u = ncols a" "ncols u = K" "nrows v = ncols b" "ncols v = K"
    using sh by (simp_all add: nrows_def ncols_def)
  have len: "length (data s) = K"
    using sh by (simp add: wf_def)
  show "(\<Sum>l<K. entry u i l * data s ! l * entry v j l) = (\<Sum>k<nrows a. entry a k i * entry b k j)"
    if "i < ncols a" "j < ncols b" for i j
    using matrix_eqD [OF eq [unfolded gram_def] that] by simp
  show "(\<Sum>i<ncols a. entry u i l * entry u i m) = (if l = m then 1 else 0)"
    if "l < K" "m < K" for l m
    using gram_identityD [OF uu dims(2) that] dims by simp
  show "(\<Sum>j<ncols b. entry v j l * entry v j m) = (if l = m then 1 else 0)"
    if "l < K" "m < K" for l m
    using gram_identityD [OF vv dims(4) that] dims by simp
  show "0 \<le> data s ! l" if "l < K" for l
    using pos that len by (simp add: list_all_length)
  show "sum_list (data s) = (\<Sum>l<K. data s ! l)"
    using len by (simp add: sum_list_sum_nth atLeast0LessThan)
qed

lemma orth_row_norm:
  fixes R :: "nat \<Rightarrow> nat \<Rightarrow> real"
  assumes RRt: "\<And>i m. i < D \<Longrightarrow> m < D \<Longrightarrow> (\<Sum>j<D. R i j * R m j) = (if i = m then 1 else 0)"
  shows "(\<Sum>j<D. (\<Sum>m<D. r m * R m j)\<^sup>2) = (\<Sum>m<D. (r m)\<^sup>2)"
proof -
  have "(\<Sum>j<D. (\<Sum>m<D. r m * R m j)\<^sup>2) = (\<Sum>j<D. \<Sum>m<D. \<Sum>i<D. r m * r i * (R m j * R i j))"
    by (simp add: power2_eq_square sum_product mult_ac)
  also have "\<dots> = (\<Sum>m<D. \<Sum>j<D. \<Sum>i<D. r m * r i * (R m j * R i j))"
    by (rule sum.swap)
  also have "\<dots> = (\<Sum>m<D. \<Sum>i<D. \<Sum>j<D. r m * r i * (R m j * R i j))"
    by (intro sum.cong refl sum.swap)
  also have "\<dots> = (\<Sum>m<D. \<Sum>i<D. r m * r i * (if m = i then 1 else 0))"
    by (intro sum.cong refl) (simp add: sum_distrib_left [symmetric] RRt)
  also have "\<dots> = (\<Sum>m<D. r m * r m)"
    by (intro sum.cong refl) (simp add: mult.assoc sum_distrib_left [symmetric] sum_delta_pick)
  finally show ?thesis by (simp add: power2_eq_square)
qed

lemma is_orthogonalD:
  assumes "is_orthogonal R"
  shows "tdim R = 2" "nrows R = ncols R"
    and "\<And>i m. i < ncols R \<Longrightarrow> m < ncols R \<Longrightarrow>
           (\<Sum>j<ncols R. entry R i j * entry R m j) = (if i = m then 1 else 0)"
    and "\<And>j m. j < ncols R \<Longrightarrow> m < ncols R \<Longrightarrow>
           (\<Sum>i<ncols R. entry R i j * entry R i m) = (if j = m then 1 else 0)"
proof -
  show d: "tdim R = 2" "nrows R = ncols R"
    using assms by (simp_all add: is_orthogonal_def)
  have rrt: "matrix (ncols R) (ncols R) (\<lambda>i j. \<Sum>m<ncols R. entry R i m * entry R j m)
             = matrix (ncols R) (ncols R) (\<lambda>i j. if i = j then 1 else 0)"
    using assms d by (simp add: is_orthogonal_def identity_def)
  show "(\<Sum>j<ncols R. entry R i j * entry R m j) = (if i = m then 1 else 0)"
    if "i < ncols R" "m < ncols R" for i m
    using matrix_eqD [OF rrt that] .
  have "gram R R = identity (ncols R)"
    using assms by (simp add: is_orthogonal_def)
  then show "(\<Sum>i<ncols R. entry R i j * entry R i m) = (if j = m then 1 else 0)"
    if "j < ncols R" "m < ncols R" for j m
    using gram_identityD [of R "ncols R" j m] that d by simp
qed

lemma rotated_normalized:
  assumes x: "tdim x = 2" and R: "is_orthogonal R" "nrows R = ncols x"
    and y: "matmul x R = Inr y"
    and nz: "fro (zero_mean x) \<noteq> 0"
    and xn: "matrix_normalize x = Inr xn" and yn: "matrix_normalize y = Inr yn"
  shows "nrows y = nrows x" "ncols y = ncols x" "tdim y = 2"
    and "fro (zero_mean y) = fro (zero_mean x)"
    and "\<And>k j. k < nrows x \<Longrightarrow> j < ncols x \<Longrightarrow>
           entry yn k j = (\<Sum>m<ncols x. entry xn k m * entry R m j)"
proof -
  define N where "N = nrows x"
  define D where "D = ncols x"
  note Rd = is_orthogonalD [OF R(1)]
  have RD: "ncols R = D" "nrows R = D"
    using R(2) Rd(2) by (simp_all add: D_def)
  have y_eq: "y = matrix N D (\<lambda>i j. \<Sum>m<D. entry x i m * entry R m j)"
    using y x Rd(1) R(2) RD by (simp add: matmul_def N_def D_def)
  show dims: "nrows y = nrows x" "ncols y = ncols x" "tdim y = 2"
    by (simp_all add: y_eq N_def D_def)
  have zx: "entry (zero_mean x) k m = entry x k m - (\<Sum>i<N. entry x i m) / real N"
    if "k < N" "m < D" for k m
    using that by (simp add: zero_mean_def N_def D_def)
  have zy: "entry (zero_mean y) k j = (\<Sum>m<D. entry (zero_mean x) k m * entry R m j)"
    if "k < N" "j < D" for k j
  proof -
    have "entry (zero_mean y) k j = entry y k j - (\<Sum>i<N. entry y i j) / real N"
      using that dims by (simp add: zero_mean_def N_def D_def)
    also have "\<dots> = (\<Sum>m<D. entry x k m * entry R m j)
                      - (\<Sum>i<N. \<Sum>m<D. entry x i m * entry R m j) / real N"
      using that by (simp add: y_eq)
    also have "(\<Sum>i<N. \<Sum>m<D. entry x i m * entry R m j)
               = (\<Sum>m<D. (\<Sum>i<N. entry x i m) * entry R m j)"
      by (subst sum.swap) (simp add: sum_distrib_right)
    also have "(\<Sum>m<D. entry x k m * entry R m j)
                 - (\<Sum>m<D. (\<Sum>i<N. entry x i m) * entry R m j) / real N
               = (\<Sum>m<D. (entry x k m - (\<Sum>i<N. entry x i m) / real N) * entry R m j)"
    proof -
      define S where "S m = (\<Sum>i<N. entry x i m)" for m
      have "(\<Sum>m<D. entry x k m * entry R m j) - (\<Sum>m<D. S m * entry R m j) / real N
            = (\<Sum>m<D. (entry x k m - S m / real N) * entry R m j)"
        by (simp add: sum_subtractf sum_divide_distrib left_diff_distrib)
      then show ?thesis by (simp add: S_def)
    qed
    also have "\<dots> = (\<Sum>m<D. entry (zero_mean x) k m * entry R m j)"
      using that by (intro sum.cong refl) (simp add: zx)
    finally show ?thesis .
  qed
  have "(\<Sum>v\<leftarrow>data (zero_mean y). v\<^sup>2) = (\<Sum>k<N. \<Sum>j<D. (entry (zero_mean y) k j)\<^sup>2)"
    using dims by (subst zero_mean_matrix) (simp add: sum_sq_matrix N_def D_def)
  also have "\<dots> = (\<Sum>k<N. \<Sum>j<D. (\<Sum>m<D. entry (zero_mean x) k m * entry R m j)\<^sup>2)"
    by (intro sum.cong refl) (simp add: zy)
  also have "\<dots> = (\<Sum>k<N. \<Sum>m<D. (entry (zero_mean x) k m)\<^sup>2)"
    by (intro sum.cong refl orth_row_norm) (use Rd(3) RD in simp)
  also have "\<dots> = (\<Sum>v\<leftarrow>data (zero_mean x). v\<^sup>2)"
    by (subst (2) zero_mean_matrix) (simp add: sum_sq_matrix N_def D_def)
  finally show f: "fro (zero_mean y) = fro (zero_mean x)"
    by (simp add: fro_def)
  have xn_eq: "xn = matrix N D (\<lambda>i j. entry (zero_mean x) i j / fro (zero_mean x))"
    using matrix_normalize_eq [OF nz] xn by (simp add: N_def D_def)
  have yn_eq: "yn = matrix N D (\<lambda>i j. entry (zero_mean y) i j / fro (zero_mean x))"
    using matrix_normalize_eq [of y] nz f yn dims by (simp add: N_def D_def)
  show "entry yn k j = (\<Sum>m<ncols x. entry xn k m * entry R m j)"
    if "k < nrows x" "j < ncols x" for k j
    using that
    by (simp add: yn_eq xn_eq zy N_def [symmetric] D_def [symmetric] sum_divide_distrib)
qed

text \<open>
  C5. \<open>x\<close> and \<open>y\<close> are matrices with the same number of rows that are not zero after
  centering, \<open>xn\<close> and \<open>yn\<close> are the two matrices normalised, and the nuclear norm that
  torch returns for the product of \<open>xn\<close> transposed and \<open>yn\<close> is the sum of the singular
  values of a decomposition of that product. Then the distance is a value in [0, 1]; it
  is 0 when \<open>y\<close> is \<open>x\<close>, and it is 0 when \<open>y\<close> is \<open>x @ R\<close> for an orthogonal matrix \<open>R\<close>.
  Entries are real numbers: the equalities are exact here and hold up to rounding in
  floating point.
\<close>

theorem procrustes_distance_properties:
  assumes "tdim x = 2" "tdim y = 2" "nrows x = nrows y"
    and "fro (zero_mean x) \<noteq> 0" "fro (zero_mean y) \<noteq> 0"
    and "matrix_normalize x = Inr xn" "matrix_normalize y = Inr yn"
    and "is_svd (gram xn yn) (u, s, v)"
    and "nuclear_norm la (gram xn yn) = sum_list (data s)"
  shows "\<exists>d. orthogonal_procrustes_distance la x y = Inr d \<and> 0 \<le> d \<and> d \<le> 1
           \<and> (y = x \<longrightarrow> d = 0)
           \<and> (\<forall>R. is_orthogonal R \<and> nrows R = ncols x \<and> matmul x R = Inr y \<longrightarrow> d = 0)"
proof -
  define N where "N = nrows x"
  define K where "K = min (ncols x) (ncols y)"
  define S where "S = (\<Sum>l<K. data s ! l)"
  note ux = normalized_unit [OF assms(4,6)]
  note uy = normalized_unit [OF assms(5,7)]
  note sv = is_svd_gramD [OF assms(8), unfolded ux(3,4) uy(3,4), folded K_def N_def]
  have dist: "orthogonal_procrustes_distance la x y = Inr (1 - S)"
    using procrustes_unfold [OF assms(1-7)] assms(9) sv(5) by (simp add: S_def)
  have S0: "0 \<le> S"
    unfolding S_def by (intro sum_nonneg) (simp add: sv(4))
  have "S \<le> ((\<Sum>k<N. \<Sum>i<ncols x. (entry xn k i)\<^sup>2) + (\<Sum>k<N. \<Sum>j<ncols y. (entry yn k j)\<^sup>2)) / 2"
    unfolding S_def by (rule sum_singular_values_le [OF sv(1) sv(2) sv(3)])
  then have S1: "S \<le> 1"
    using ux(1) uy(1) assms(3) by (simp add: N_def)
  have same: "S = 1" if "y = x"
  proof -
    have yx: "yn = xn" "ncols y = ncols x" "K = ncols x"
      using that assms(6,7) by (simp_all add: K_def)
    have "(\<Sum>k<N. \<Sum>i<ncols x. (entry xn k i)\<^sup>2) \<le> S"
      unfolding S_def
    proof (rule sum_singular_values_ge [where R = "\<lambda>i j. if i = j then 1 else 0" and Y = "entry xn"
          and U = "entry u" and V = "entry v"])
      show "(\<Sum>m<K. entry u i m * data s ! m * entry v j m) = (\<Sum>k<N. entry xn k i * entry xn k j)"
        if "i < ncols x" "j < ncols x" for i j
        using sv(1) [of i j] that yx by simp
      show "entry xn k j = (\<Sum>i<ncols x. entry xn k i * (if i = j then 1 else 0))"
        if "k < N" "j < ncols x" for k j
        using that by (simp add: sum_delta_pick)
      show "(\<Sum>j<ncols x. (if i = j then 1 else 0) * (if m = j then 1 else 0)) = (if i = m then 1 else (0::real))"
        if "i < ncols x" "m < ncols x" for i m
        using that sum_delta_pick(3) [of i "ncols x" "\<lambda>j. if m = j then 1 else 0"] by auto
      show "(\<Sum>i<ncols x. (if i = j then 1 else 0) * (if i = m then 1 else 0)) = (if j = m then 1 else (0::real))"
        if "j < ncols x" "m < ncols x" for j m
        using that sum_delta_pick(4) [of j "ncols x" "\<lambda>i. if i = m then 1 else 0"] by auto
      show "(\<Sum>i<ncols x. (entry u i l)\<^sup>2) = 1" if "l < K" for l
        using sv(2) [OF that that] by (simp add: power2_eq_square)
      show "(\<Sum>j<ncols x. (entry v j l)\<^sup>2) = 1" if "l < K" for l
        using sv(3) [OF that that] yx by (simp add: power2_eq_square)
      show "0 \<le> data s ! l" if "l < K" for l
        using sv(4) [OF that] .
    qed
    then show ?thesis using ux(1) S1 by (simp add: N_def)
  qed
  have rot: "S = 1" if R: "is_orthogonal R \<and> nrows R = ncols x \<and> matmul x R = Inr y" for R
  proof -
    note rn = rotated_normalized [OF assms(1) _ _ _ assms(4,6,7), of R]
    note Rd = is_orthogonalD [of R]
    have RD: "ncols R = ncols x" using R Rd(2) by simp
    have cy: "ncols y = ncols x" using rn(2) R by simp
    have Kx: "K = ncols x" using cy by (simp add: K_def)
    have "(\<Sum>k<N. \<Sum>i<ncols x. (entry xn k i)\<^sup>2) \<le> S"
      unfolding S_def
    proof (rule sum_singular_values_ge [where R = "entry R" and Y = "entry yn"
          and U = "entry u" and V = "entry v"])
      show "(\<Sum>m<K. entry u i m * data s ! m * entry v j m) = (\<Sum>k<N. entry xn k i * entry yn k j)"
        if "i < ncols x" "j < ncols x" for i j
        using sv(1) [of i j] that cy by simp
      show "entry yn k j = (\<Sum>i<ncols x. entry xn k i * entry R i j)"
        if "k < N" "j < ncols x" for k j
        using rn(5) [of k j] that R by (simp add: N_def)
      show "(\<Sum>j<ncols x. entry R i j * entry R m j) = (if i = m then 1 else 0)"
        if "i < ncols x" "m < ncols x" for i m
        using Rd(3) [of i m] that R RD by simp
      show "(\<Sum>i<ncols x. entry R i j * entry R i m) = (if j = m then 1 else 0)"
        if "j < ncols x" "m < ncols x" for j m
        using Rd(4) [of j m] that R RD by simp
      show "(\<Sum>i<ncols x. (entry u i l)\<^sup>2) = 1" if "l < K" for l
        using sv(2) [OF that that] by (simp add: power2_eq_square)
      show "(\<Sum>j<ncols x. (entry v j l)\<^sup>2) = 1" if "l < K" for l
        using sv(3) [OF that that] cy by (simp add: power2_eq_square)
      show "0 \<le> data s ! l" if "l < K" for l
        using sv(4) [OF that] .
    qed
    then show ?thesis using ux(1) S1 by (simp add: N_def)
  qed
  show ?thesis
    using dist S0 S1 same rot by auto
qed

lemma sqrt_100: "sqrt 100 = 10"
  using real_sqrt_abs [of 10] by simp

lemma p5_normalize:
  "fro (zero_mean p5_x) = 10" "fro (zero_mean p5_y) = 10"
  "matrix_normalize p5_x = Inr p5_xn" "matrix_normalize p5_y = Inr p5_yn"
proof -
  have sx: "(\<Sum>v\<leftarrow>data (zero_mean p5_x). v\<^sup>2) = 100"
    by code_simp
  have sy: "(\<Sum>v\<leftarrow>data (zero_mean p5_y). v\<^sup>2) = 100"
    by code_simp
  show fx: "fro (zero_mean p5_x) = 10" and fy: "fro (zero_mean p5_y) = 10"
    by (simp_all add: fro_def sx sy sqrt_100)
  have dx: "(data (zero_mean p5_x) = []) = False" "(data (zero_mean p5_y) = []) = False"
    by code_simp+
  have cx: "scale (1 / 10) (zero_mean p5_x) = p5_xn"
    by code_simp
  have cy: "scale (1 / 10) (zero_mean p5_y) = p5_yn"
    by code_simp
  show "matrix_normalize p5_x = Inr p5_xn" "matrix_normalize p5_y = Inr p5_yn"
    by (simp_all add: matrix_normalize_def Let_def fx fy dx cx cy)
qed

theorem procrustes_distance_properties_witness:
  "is_orthogonal rot34 \<and> matmul p5_x rot34 = Inr p5_y
   \<and> orthogonal_procrustes_distance unit_nuclear p5_x p5_y = Inr 0
   \<and> orthogonal_procrustes_distance unit_nuclear p5_x p5_x = Inr 0"
proof -
  have R: "is_orthogonal rot34" "nrows rot34 = ncols p5_x" "matmul p5_x rot34 = Inr p5_y"
    by code_simp+
  have sh: "tdim p5_x = 2" "tdim p5_y = 2" "nrows p5_x = nrows p5_y"
    by code_simp+
  have svd_xy: "is_svd (gram p5_xn p5_yn) (swap2, p5_s, p5_v)"
    by code_simp
  have svd_xx: "is_svd (gram p5_xn p5_xn) (swap2, p5_s, swap2)"
    by code_simp
  have nn: "nuclear_norm unit_nuclear (gram p5_xn p5_yn) = sum_list (data p5_s)"
    "nuclear_norm unit_nuclear (gram p5_xn p5_xn) = sum_list (data p5_s)"
    by (simp_all add: unit_nuclear_def p5_s_def)
  have nz: "fro (zero_mean p5_x) \<noteq> 0" "fro (zero_mean p5_y) \<noteq> 0"
    by (simp_all add: p5_normalize)
  from procrustes_distance_properties [OF sh nz p5_normalize(3,4) svd_xy nn(1)] R
  have 1: "orthogonal_procrustes_distance unit_nuclear p5_x p5_y = Inr 0"
    by auto
  from procrustes_distance_properties [OF sh(1) sh(1) refl nz(1) nz(1) p5_normalize(3)
      p5_normalize(3) svd_xx nn(2)]
  have 2: "orthogonal_procrustes_distance unit_nuclear p5_x p5_x = Inr 0"
    by auto
  show ?thesis using R 1 2 by simp
qed

section \<open>The shifts on even extents\<close>

lemma shape_roll_dim [simp]: "shape (roll_dim x s d) = shape x"
  by (simp add: roll_dim_def Let_def)

lemma tdim_roll_dim [simp]: "tdim (roll_dim x s d) = tdim x"
  by (simp add: tdim_def)

lemma length_roll_dim [simp]: "length (data (roll_dim x s d)) = length (data x)"
  by (simp add: roll_dim_def Let_def)

lemma wf_roll_dim [simp]: "wf (roll_dim x s d) = wf x"
  by (simp add: wf_def)

lemma flat_index_parts:
  fixes n inner :: nat
  assumes "q < n" "r < inner"
  shows "(ob * (n * inner) + q * inner + r) div (n * inner) = ob"
    and "(ob * (n * inner) + q * inner + r) div inner mod n = q"
    and "(ob * (n * inner) + q * inner + r) mod inner = r"
proof -
  have e: "ob * (n * inner) + q * inner + r = (ob * n + q) * inner + r"
    by (simp add: algebra_simps)
  have d: "((ob * n + q) * inner + r) div inner = ob * n + q"
    using assms by simp
  show "(ob * (n * inner) + q * inner + r) div inner mod n = q"
    unfolding e d using assms by simp
  show "(ob * (n * inner) + q * inner + r) mod inner = r"
    unfolding e using assms by simp
  have "(ob * (n * inner) + q * inner + r) div (n * inner)
        = ((ob * n + q) * inner + r) div inner div n"
    unfolding e by (simp add: div_mult2_eq mult.commute)
  then show "(ob * (n * inner) + q * inner + r) div (n * inner) = ob"
    unfolding d using assms by simp
qed

lemma flat_index_recompose:
  fixes n inner :: nat
  shows "k div (n * inner) * (n * inner) + (k div inner mod n) * inner + k mod inner = k"
proof -
  define a where "a = k div inner"
  have 1: "k div (n * inner) = a div n"
    by (simp add: a_def div_mult2_eq mult.commute)
  have "a div n * n + a mod n = a"
    by simp
  then have "(a div n * n + a mod n) * inner = a * inner"
    by (rule arg_cong)
  then have "a div n * (n * inner) + (a mod n) * inner = a * inner"
    by (simp only: add_mult_distrib mult.assoc)
  then show ?thesis
    unfolding 1 a_def [symmetric] by (simp add: a_def)
qed


lemma prod_list_split:
  assumes "d < length sh"
  shows "prod_list sh = prod_list (take d sh) * (sh ! d * prod_list (drop (Suc d) sh))"
proof -
  have "prod_list sh = prod_list (take d sh @ sh ! d # drop (Suc d) sh)"
    using id_take_nth_drop [OF assms] by simp
  then show ?thesis by simp
qed

lemma mod_shift_back:
  fixes s s' :: int
  assumes "(s + s') mod int n = 0" "q < n"
  shows "nat ((int (nat ((int q - s') mod int n)) - s) mod int n) = q"
proof -
  have n: "0 < int n" using assms(2) by simp
  then have "0 \<le> (int q - s') mod int n" by simp
  then have "(int (nat ((int q - s') mod int n)) - s) mod int n
             = ((int q - s') mod int n - s) mod int n"
    by simp
  also have "\<dots> = (int q - s' - s) mod int n"
    by (simp add: mod_diff_left_eq)
  also have "\<dots> = (int q - (s + s')) mod int n"
    by (simp add: algebra_simps)
  also have "\<dots> = (int q - (s + s') mod int n) mod int n"
    by (simp add: mod_diff_right_eq)
  also have "\<dots> = int q"
    using assms by simp
  finally show ?thesis by simp
qed

lemma roll_dim_inverse:
  assumes wf: "wf x" and d: "d < tdim x"
    and inv: "(s + s') mod int (shape x ! d) = 0"
  shows "roll_dim (roll_dim x s d) s' d = x"
proof -
  define n where "n = shape x ! d"
  define inner where "inner = prod_list (drop (Suc d) (shape x))"
  define outer where "outer = prod_list (take d (shape x))"
  define L where "L = length (data x)"
  define src where
    "src t k = k div (n * inner) * (n * inner)
               + nat ((int (k div inner mod n) - t) mod int n) * inner + k mod inner" for t k
  have L: "L = outer * (n * inner)"
    using wf d prod_list_split [of d "shape x"]
    by (simp add: wf_def tdim_def L_def outer_def n_def inner_def)
  have pos: "0 < n" "0 < inner" if "k < L" for k
    using that L by (cases n; cases inner; simp)+
  have q_lt: "nat ((int q - t) mod int n) < n" if "0 < n" for q t
    using that by (simp add: nat_less_iff)
  have src_lt: "src t k < L" if "k < L" for t k
  proof -
    have o: "k div (n * inner) < outer"
      using that L by (simp add: less_mult_imp_div_less)
    have "src t k < k div (n * inner) * (n * inner) + n * inner"
    proof -
      have "nat ((int (k div inner mod n) - t) mod int n) * inner + k mod inner < n * inner"
        using flat_index_less [OF q_lt [OF pos(1) [OF that]], of "k mod inner" inner
            "k div inner mod n" t] pos(2) [OF that]
        by simp
      then show ?thesis by (simp add: src_def)
    qed
    also have "\<dots> = Suc (k div (n * inner)) * (n * inner)"
      by simp
    also have "\<dots> \<le> outer * (n * inner)"
      using o by (intro mult_le_mono1) simp
    finally show ?thesis using L by simp
  qed
  have r1: "data (roll_dim x t d) ! k = data x ! src t k" if "k < L" for t k
    using that by (simp add: roll_dim_def Let_def src_def n_def inner_def L_def)
  have src_src: "src s (src s' k) = k" if "k < L" for k
  proof -
    let ?q = "nat ((int (k div inner mod n) - s') mod int n)"
    have q: "?q < n" using q_lt pos(1) [OF that] by simp
    have r: "k mod inner < inner" using pos(2) [OF that] by simp
    have parts: "src s' k div (n * inner) = k div (n * inner)"
      "src s' k div inner mod n = ?q" "src s' k mod inner = k mod inner"
      unfolding src_def using flat_index_parts [OF q r] by simp_all
    have shift_back: "nat ((int ?q - s) mod int n) = k div inner mod n"
      using mod_shift_back [of s s' n "k div inner mod n"] inv pos(1) [OF that]
      by (simp add: n_def)
    have "src s (src s' k)
          = k div (n * inner) * (n * inner) + nat ((int ?q - s) mod int n) * inner + k mod inner"
      by (simp only: src_def [of s] parts)
    also have "\<dots> = k div (n * inner) * (n * inner) + (k div inner mod n) * inner + k mod inner"
      by (simp only: shift_back)
    also have "\<dots> = k"
      by (rule flat_index_recompose)
    finally show ?thesis .
  qed
  have "data (roll_dim (roll_dim x s d) s' d) = data x"
  proof (rule nth_equalityI)
    show "length (data (roll_dim (roll_dim x s d) s' d)) = length (data x)"
      by simp
    fix k assume "k < length (data (roll_dim (roll_dim x s d) s' d))"
    then have k: "k < L" by (simp add: L_def)
    have "data (roll_dim (roll_dim x s d) s' d) ! k = data (roll_dim x s d) ! src s' k"
      using k by (simp add: roll_dim_def [of "roll_dim x s d"] Let_def src_def n_def inner_def L_def)
    also have "\<dots> = data x ! src s (src s' k)"
      using r1 [OF src_lt [OF k]] .
    finally show "data (roll_dim (roll_dim x s d) s' d) ! k = data x ! k"
      using src_src [OF k] by simp
  qed
  then show ?thesis
    by (simp add: roll_dim_def Let_def)
qed


lemma py_index_nat: "d < r \<Longrightarrow> py_index r (int d) = Inr d"
  by (simp add: py_index_def)


lemma shape_fold_roll [simp]:
  "shape (fold (\<lambda>(s, d) y. roll_dim y s d) ps x) = shape x"
  by (induction ps arbitrary: x) auto


lemma length_fold_roll [simp]:
  "length (data (fold (\<lambda>(s, d) y. roll_dim y s d) ps x)) = length (data x)"
  by (induction ps arbitrary: x) auto

lemma wf_fold_roll [simp]:
  "wf (fold (\<lambda>(s, d) y. roll_dim y s d) ps x) = wf x"
  by (simp add: wf_def)


lemma roll_pairs_nat:
  assumes "\<forall>d\<in>set ds. d < tdim x"
  shows "roll_pairs x (map (\<lambda>d. (f d, int d)) ds)
         = Inr (fold (\<lambda>(s, d) y. roll_dim y s d) (map (\<lambda>d. (f d, d)) ds) x)"
  using assms by (induction ds arbitrary: x) (simp_all add: py_index_nat)


lemma emap_sizes:
  assumes "\<forall>d\<in>set ds. d < tdim x"
  shows "emap (\<lambda>d. ebind (size_at x d) (\<lambda>n. Inr (f n))) (map int ds)
         = Inr (map (\<lambda>d. f (shape x ! d)) ds)"
  using assms by (induction ds) (simp_all add: size_at_def py_index_nat)


lemma roll_with_sizes:
  assumes "\<forall>d\<in>set ds. d < tdim x" "ds \<noteq> []"
  shows "ebind (emap (\<lambda>d. ebind (size_at x d) (\<lambda>n. Inr (f n))) (map int ds))
           (\<lambda>shift. roll x shift (map int ds))
         = Inr (fold (\<lambda>(s, d) y. roll_dim y s d) (map (\<lambda>d. (f (shape x ! d), d)) ds) x)"
proof -
  have "zip (map (\<lambda>d. f (shape x ! d)) ds) (map int ds) = map (\<lambda>d. (f (shape x ! d), int d)) ds"
    by (induction ds) simp_all
  then show ?thesis
    using assms roll_pairs_nat [OF assms(1), of "\<lambda>d. f (shape x ! d)"]
    by (simp add: emap_sizes roll_def)
qed


lemma fold_roll_inverse:
  assumes "wf x" "\<forall>d\<in>set ds. d < tdim x"
    and "\<forall>d\<in>set ds. (f d + g d) mod int (shape x ! d) = 0"
  shows "fold (\<lambda>(s, d) y. roll_dim y s d) (map (\<lambda>d. (g d, d)) (rev ds))
           (fold (\<lambda>(s, d) y. roll_dim y s d) (map (\<lambda>d. (f d, d)) ds) x) = x"
  using assms
proof (induction ds arbitrary: x)
  case Nil
  then show ?case by simp
next
  case (Cons d ds)
  let ?x' = "roll_dim x (f d) d"
  have "fold (\<lambda>(s, d) y. roll_dim y s d) (map (\<lambda>d. (g d, d)) (rev ds))
           (fold (\<lambda>(s, d) y. roll_dim y s d) (map (\<lambda>d. (f d, d)) ds) ?x') = ?x'"
    using Cons.prems by (intro Cons.IH) simp_all
  then show ?case
    using Cons.prems roll_dim_inverse [of x d "f d" "g d"] by simp
qed




lemma half_shifts_cancel:
  assumes "even n"
  shows "(int n div 2 + (- int n) div 2) mod int n = 0"
    and "((- int n) div 2 + int n div 2) mod int n = 0"
proof -
  obtain m where n: "n = 2 * m" using assms by (auto elim: evenE)
  have a: "int n div 2 = int m"
    by (simp add: n)
  have "- int n = 2 * (- int m)"
    by (simp add: n)
  then have b: "(- int n) div 2 = - int m"
    by simp
  show "(int n div 2 + (- int n) div 2) mod int n = 0"
    and "((- int n) div 2 + int n div 2) mod int n = 0"
    by (simp_all only: a b) simp_all
qed

lemma default_dims:
  "fft_shift x None
   = ebind (emap (\<lambda>d. ebind (size_at x d) (\<lambda>n. Inr (int n div 2)))
              (map int [(if tdim x = 4 then 1 else 2)..<tdim x - 1]))
       (\<lambda>shift. roll x shift (map int [(if tdim x = 4 then 1 else 2)..<tdim x - 1]))"
  "ifft_shift x None
   = ebind (emap (\<lambda>d. ebind (size_at x d) (\<lambda>n. Inr ((- int n) div 2)))
              (map int (rev [(if tdim x = 4 then 1 else 2)..<tdim x - 1])))
       (\<lambda>shift. roll x shift (map int (rev [(if tdim x = 4 then 1 else 2)..<tdim x - 1])))"
proof -
  show "fft_shift x None
   = ebind (emap (\<lambda>d. ebind (size_at x d) (\<lambda>n. Inr (int n div 2)))
              (map int [(if tdim x = 4 then 1 else 2)..<tdim x - 1]))
       (\<lambda>shift. roll x shift (map int [(if tdim x = 4 then 1 else 2)..<tdim x - 1]))"
    unfolding fft_shift_def Let_def by simp
  have "Suc (if tdim x = 4 then 0 else 1) = (if tdim x = 4 then 1 else 2)"
    by simp
  then show "ifft_shift x None
   = ebind (emap (\<lambda>d. ebind (size_at x d) (\<lambda>n. Inr ((- int n) div 2)))
              (map int (rev [(if tdim x = 4 then 1 else 2)..<tdim x - 1])))
       (\<lambda>shift. roll x shift (map int (rev [(if tdim x = 4 then 1 else 2)..<tdim x - 1])))"
    unfolding ifft_shift_def Let_def by (simp only: option.case)
qed

text \<open>
  On a well-formed tensor of rank 4 or more whose default axes all have even extents, the
  two shifts with the default axes undo each other, in both orders. (With fewer than
  four dimensions the default list of axes is empty and \<open>torch.roll\<close> refuses it.)
\<close>

lemma shift_roundtrip_even:
  assumes "wf x" "4 \<le> tdim x"
    and "\<forall>d\<in>{(if tdim x = 4 then 1 else 2)..<tdim x - 1}. even (shape x ! d)"
  shows "ebind (fft_shift x None) (\<lambda>y. ifft_shift y None) = Inr x"
    and "ebind (ifft_shift x None) (\<lambda>y. fft_shift y None) = Inr x"
proof -
  define ds where "ds = [(if tdim x = 4 then 1 else 2)..<tdim x - 1]"
  define R where "R = (\<lambda>(s :: int, d) y. roll_dim y s d)"
  have ds: "\<forall>d\<in>set ds. d < tdim x" "ds \<noteq> []" "\<forall>d\<in>set ds. even (shape x ! d)"
    using assms(2,3) by (auto simp: ds_def)
  have rds: "\<forall>d\<in>set (rev ds). d < tdim x" "rev ds \<noteq> []"
    using ds by simp_all
  have fwd: "fft_shift y None = Inr (fold R (map (\<lambda>d. (int (shape x ! d) div 2, d)) ds) y)"
    if "shape y = shape x" for y
  proof -
    have t: "tdim y = tdim x" using that by (simp add: tdim_def)
    show ?thesis
      unfolding default_dims(1) t ds_def [symmetric] R_def
      using roll_with_sizes [of ds y "\<lambda>n. int n div 2"] ds(1,2) t that by simp
  qed
  have bwd: "ifft_shift y None
             = Inr (fold R (map (\<lambda>d. ((- int (shape x ! d)) div 2, d)) (rev ds)) y)"
    if "shape y = shape x" for y
  proof -
    have t: "tdim y = tdim x" using that by (simp add: tdim_def)
    show ?thesis
      unfolding default_dims(2) t ds_def [symmetric] R_def
      using roll_with_sizes [of "rev ds" y "\<lambda>n. (- int n) div 2"] rds t that by simp
  qed
  have c: "\<forall>d\<in>set ds. (int (shape x ! d) div 2 + (- int (shape x ! d)) div 2)
                          mod int (shape x ! d) = 0"
    "\<forall>d\<in>set (rev ds). ((- int (shape x ! d)) div 2 + int (shape x ! d) div 2)
                          mod int (shape x ! d) = 0"
    using ds(3) half_shifts_cancel by simp_all
  define y1 where "y1 = fold R (map (\<lambda>d. (int (shape x ! d) div 2, d)) ds) x"
  define y2 where "y2 = fold R (map (\<lambda>d. ((- int (shape x ! d)) div 2, d)) (rev ds)) x"
  have sh: "shape y1 = shape x" "shape y2 = shape x"
    by (simp_all add: y1_def y2_def R_def)
  have "fold R (map (\<lambda>d. ((- int (shape x ! d)) div 2, d)) (rev ds)) y1 = x"
    unfolding y1_def R_def by (rule fold_roll_inverse [OF assms(1) ds(1) c(1)])
  then have "ifft_shift y1 None = Inr x"
    using bwd [OF sh(1)] by simp
  moreover have "fft_shift x None = Inr y1"
    using fwd [OF refl] by (simp add: y1_def)
  ultimately show "ebind (fft_shift x None) (\<lambda>y. ifft_shift y None) = Inr x"
    by simp
  have "fold R (map (\<lambda>d. (int (shape x ! d) div 2, d)) (rev (rev ds))) y2 = x"
    unfolding y2_def R_def by (rule fold_roll_inverse [OF assms(1) rds(1) c(2)])
  then have "fft_shift y2 None = Inr x"
    using fwd [OF sh(2)] by simp
  moreover have "ifft_shift x None = Inr y2"
    using bwd [OF refl] by (simp add: y2_def)
  ultimately show "ebind (ifft_shift x None) (\<lambda>y. fft_shift y None) = Inr x"
    by simp
qed

section \<open>What the reduction keeps, in general\<close>

lemma cumsum_nth:
  "i < length xs \<Longrightarrow> cumsum xs ! i = sum_list (take (Suc i) xs)"
  by (simp add: cumsum_def)

lemma length_cumsum [simp]: "length (cumsum xs) = length xs"
  by (simp add: cumsum_def)

lemma sum_list_take_mono:
  fixes xs :: "real list"
  assumes "\<forall>x\<in>set xs. 0 \<le> x" "i \<le> j"
  shows "sum_list (take i xs) \<le> sum_list (take j xs)"
proof -
  have "take j xs = take i xs @ take (j - i) (drop i xs)"
    using assms(2) by (metis le_add_diff_inverse take_add)
  moreover have "0 \<le> sum_list (take (j - i) (drop i xs))"
    using assms(1) by (intro sum_list_nonneg) (auto dest: in_set_takeD in_set_dropD)
  ultimately show ?thesis by simp
qed

text \<open>
  The directions that \<open>_svd_reduction\<close> keeps never reach \<open>accept_rate\<close>: their
  cumulative normalised mass is below it.
\<close>

lemma num_retained_below:
  assumes "0 < num_retained diag r"
  shows "sum_list (take (num_retained diag r) (map abs diag)) / sum_list (map abs diag) < r"
proof -
  define as where "as = map abs diag"
  define full where "full = sum_list as"
  define rs where "rs = map (\<lambda>c. c / full) (cumsum as)"
  define k where "k = num_retained diag r"
  have full: "full \<noteq> 0"
    using assms by (auto simp: num_retained_def Let_def full_def as_def split: if_splits)
  have nonneg: "\<forall>x\<in>set as. 0 \<le> x"
    by (auto simp: as_def)
  then have "0 \<le> full"
    unfolding full_def by (intro sum_list_nonneg) auto
  then have fpos: "0 < full" using full by simp
  have k: "k = length (filter (\<lambda>x. x < r) rs)"
    using full by (simp add: k_def num_retained_def Let_def rs_def full_def as_def)
  have len: "length rs = length as"
    by (simp add: rs_def)
  have mono: "rs ! i \<le> rs ! j" if "i \<le> j" "j < length as" for i j
  proof -
    have "sum_list (take (Suc i) as) \<le> sum_list (take (Suc j) as)"
      using that nonneg by (intro sum_list_take_mono) auto
    then show ?thesis
      using that fpos by (simp add: rs_def cumsum_nth divide_right_mono)
  qed
  have kpos: "0 < k" using assms by (simp add: k_def)
  have "rs ! (k - 1) < r"
  proof (rule ccontr)
    assume neg: "\<not> rs ! (k - 1) < r"
    have "{i. i < length rs \<and> rs ! i < r} \<subseteq> {..<k - 1}"
    proof
      fix i assume "i \<in> {i. i < length rs \<and> rs ! i < r}"
      then have i: "i < length rs" "rs ! i < r" by auto
      have "i < k - 1"
      proof (rule ccontr)
        assume "\<not> i < k - 1"
        then have "rs ! (k - 1) \<le> rs ! i"
          using mono [of "k - 1" i] i len by simp
        then show False using neg i by simp
      qed
      then show "i \<in> {..<k - 1}" by simp
    qed
    then have "card {i. i < length rs \<and> rs ! i < r} \<le> card {..<k - 1}"
      by (intro card_mono) auto
    moreover have "card {i. i < length rs \<and> rs ! i < r} = k"
      by (simp only: k length_filter_conv_card)
    ultimately have "k \<le> k - 1"
      by simp
    then show False using kpos by simp
  qed
  moreover have "k \<le> length rs"
    by (simp add: k)
  ultimately have "sum_list (take k as) / full < r"
    using kpos len by (simp add: rs_def cumsum_nth)
  then show ?thesis
    by (simp add: k_def as_def full_def)
qed

text \<open>Below the share of the largest singular value nothing is kept.\<close>

lemma num_retained_small_rate:
  assumes "diag \<noteq> []" "r \<le> \<bar>hd diag\<bar> / sum_list (map abs diag)"
  shows "num_retained diag r = 0"
proof -
  define as where "as = map abs diag"
  define full where "full = sum_list as"
  have nonneg: "\<forall>x\<in>set as. 0 \<le> x"
    by (auto simp: as_def)
  then have f0: "0 \<le> full"
    unfolding full_def by (intro sum_list_nonneg) auto
  have hd: "sum_list (take 1 as) = \<bar>hd diag\<bar>"
    using assms(1) by (cases diag) (simp_all add: as_def)
  have "\<not> c / full < r" if "c \<in> set (cumsum as)" for c
  proof -
    have "c \<in> (\<lambda>i. sum_list (take (Suc i) as)) ` {0..<length as}"
      using that by (simp add: cumsum_def)
    then obtain i where i: "i < length as" "c = sum_list (take (Suc i) as)"
      by auto
    have "sum_list (take 1 as) \<le> c"
      unfolding i(2) using nonneg by (intro sum_list_take_mono) auto
    then have "\<bar>hd diag\<bar> / full \<le> c / full"
      using f0 hd by (simp add: divide_right_mono)
    then show ?thesis
      using assms(2) by (simp add: full_def as_def)
  qed
  then have "filter (\<lambda>x. x < r) (map (\<lambda>c. c / full) (cumsum as)) = []"
    by (auto simp: filter_empty_conv)
  then show ?thesis
    by (simp add: num_retained_def Let_def full_def as_def)
qed

section \<open>The default branch of \<open>distance\<close>, in general\<close>

text \<open>
  Whatever rank-4 buffers with the same first size the two hooks hold, \<open>distance\<close> with
  \<open>'filter'\<close> returns \<open>None\<close>.
\<close>

lemma distance_filter_rank4:
  assumes "hooked self = Some a" "hooked other = Some b" "tdim a = 4" "tdim b = 4"
    and "shape a ! 0 = shape b ! 0"
  shows "distance ds self other dm sz ''filter'' = Inr None"
  using assms by (simp add: distance_def hooked_tensors_def tsize_def)

section \<open>Decompositions of a matrix with orthogonal columns\<close>

text \<open>
  When the columns of a matrix are orthogonal and their norms strictly decrease, a reduced
  decomposition of it is determined up to one sign for each singular vector: the singular
  values are the norms of the columns, \<open>V\<close> is diagonal with entries 1 or -1, and \<open>U\<close>
  holds the normalised columns with these signs.
\<close>

lemma strict_mono_bounded_id:
  fixes f :: "nat \<Rightarrow> nat"
  assumes mono: "\<And>m m'. m < m' \<Longrightarrow> m' < D \<Longrightarrow> f m < f m'"
    and bound: "\<And>m. m < D \<Longrightarrow> f m < D"
    and m: "m < D"
  shows "f m = m"
proof -
  have ge: "j + f m \<le> f (m + j)" if "m + j < D" for m j
    using that
  proof (induction j)
    case 0
    then show ?case by simp
  next
    case (Suc j)
    then have "j + f m \<le> f (m + j)" by simp
    moreover have "f (m + j) < f (m + Suc j)"
      using Suc.prems by (intro mono) simp_all
    ultimately show ?case by simp
  qed
  have "m + f 0 \<le> f m"
    using ge [of 0 m] m by simp
  then have lo: "m \<le> f m" by simp
  have "(D - 1 - m) + f m \<le> f (m + (D - 1 - m))"
    using m by (intro ge) simp
  also have "m + (D - 1 - m) = D - 1"
    using m by simp
  also have "f (D - 1) < D"
    using m by (intro bound) simp
  finally have "f m \<le> m" using m by simp
  then show ?thesis using lo by simp
qed


lemma sum_single:
  fixes f :: "nat \<Rightarrow> real"
  assumes "p < D" "\<And>i. i < D \<Longrightarrow> i \<noteq> p \<Longrightarrow> f i = 0"
  shows "(\<Sum>i<D. f i) = f p"
proof -
  have "(\<Sum>i<D. f i) = (\<Sum>i<D. if i = p then f p else 0)"
    by (intro sum.cong refl) (use assms(2) in auto)
  then show ?thesis using assms(1) by (simp add: sum.delta)
qed

lemma svd_diag_unique:
  fixes A U V :: "nat \<Rightarrow> nat \<Rightarrow> real" and s c :: "nat \<Rightarrow> real"
  assumes E1: "\<And>k i. k < N \<Longrightarrow> i < D \<Longrightarrow> A k i = (\<Sum>l<D. U k l * s l * V i l)"
    and UU: "\<And>l m. l < D \<Longrightarrow> m < D \<Longrightarrow> (\<Sum>k<N. U k l * U k m) = (if l = m then 1 else 0)"
    and VV: "\<And>l m. l < D \<Longrightarrow> m < D \<Longrightarrow> (\<Sum>i<D. V i l * V i m) = (if l = m then 1 else 0)"
    and s0: "\<And>l. l < D \<Longrightarrow> 0 \<le> s l"
    and sorted: "\<And>l m. l \<le> m \<Longrightarrow> m < D \<Longrightarrow> s m \<le> s l"
    and G: "\<And>i j. i < D \<Longrightarrow> j < D \<Longrightarrow> (\<Sum>k<N. A k i * A k j) = (if i = j then c i else 0)"
    and cdec: "\<And>i j. i < j \<Longrightarrow> j < D \<Longrightarrow> c j < c i"
  shows "\<And>l. l < D \<Longrightarrow> (s l)\<^sup>2 = c l"
    and "\<And>i l. i < D \<Longrightarrow> l < D \<Longrightarrow> i \<noteq> l \<Longrightarrow> V i l = 0"
    and "\<And>l. l < D \<Longrightarrow> V l l = 1 \<or> V l l = - 1"
    and "\<And>k l. k < N \<Longrightarrow> l < D \<Longrightarrow> U k l * s l * V l l = A k l"
proof -
  have G2: "(\<Sum>k<N. A k i * A k j) = (\<Sum>l<D. (s l)\<^sup>2 * (V i l * V j l))"
    if "i < D" "j < D" for i j
  proof -
    have "(\<Sum>k<N. A k i * A k j)
          = (\<Sum>k<N. (\<Sum>l<D. U k l * s l * V i l) * (\<Sum>m<D. U k m * s m * V j m))"
      using that by (intro sum.cong refl) (simp add: E1)
    also have "\<dots> = (\<Sum>k<N. \<Sum>l<D. \<Sum>m<D. s l * s m * (V i l * V j m) * (U k l * U k m))"
      by (simp add: sum_product mult_ac)
    also have "\<dots> = (\<Sum>l<D. \<Sum>k<N. \<Sum>m<D. s l * s m * (V i l * V j m) * (U k l * U k m))"
      by (rule sum.swap)
    also have "\<dots> = (\<Sum>l<D. \<Sum>m<D. \<Sum>k<N. s l * s m * (V i l * V j m) * (U k l * U k m))"
      by (intro sum.cong refl sum.swap)
    also have "\<dots> = (\<Sum>l<D. \<Sum>m<D. s l * s m * (V i l * V j m) * (if l = m then 1 else 0))"
      by (intro sum.cong refl) (simp add: sum_distrib_left [symmetric] UU)
    also have "\<dots> = (\<Sum>l<D. s l * s l * (V i l * V j l))"
      by (intro sum.cong refl) (simp add: sum_delta_pick)
    finally show ?thesis by (simp add: power2_eq_square)
  qed
  have star: "c i * V i m = (s m)\<^sup>2 * V i m" if "i < D" "m < D" for i m
  proof -
    have "(\<Sum>j<D. (\<Sum>k<N. A k i * A k j) * V j m) = (\<Sum>j<D. (if i = j then c i else 0) * V j m)"
      using that by (intro sum.cong refl) (simp add: G)
    also have "\<dots> = (\<Sum>j<D. (c i * V j m) * (if i = j then 1 else 0))"
      by (intro sum.cong refl) simp
    also have "\<dots> = c i * V i m"
      using that by (simp add: sum_delta_pick)
    finally have l: "(\<Sum>j<D. (\<Sum>k<N. A k i * A k j) * V j m) = c i * V i m" .
    have "(\<Sum>j<D. (\<Sum>k<N. A k i * A k j) * V j m)
          = (\<Sum>j<D. (\<Sum>l<D. (s l)\<^sup>2 * (V i l * V j l)) * V j m)"
      using that by (intro sum.cong refl) (simp add: G2)
    also have "\<dots> = (\<Sum>j<D. \<Sum>l<D. (s l)\<^sup>2 * V i l * (V j l * V j m))"
      by (intro sum.cong refl) (simp add: sum_distrib_left sum_distrib_right mult_ac)
    also have "\<dots> = (\<Sum>l<D. \<Sum>j<D. (s l)\<^sup>2 * V i l * (V j l * V j m))"
      by (rule sum.swap)
    also have "\<dots> = (\<Sum>l<D. (s l)\<^sup>2 * V i l * (if l = m then 1 else 0))"
      by (intro sum.cong refl) (simp add: sum_distrib_left [symmetric] VV that)
    also have "\<dots> = (s m)\<^sup>2 * V i m"
      using that by (simp add: sum_delta_pick)
    finally show ?thesis using l by simp
  qed
  have cinj: "i = j" if "c i = c j" "i < D" "j < D" for i j
    using that cdec [of i j] cdec [of j i] by (cases i j rule: linorder_cases) auto
  have ex: "\<exists>i<D. V i m \<noteq> 0" if "m < D" for m
  proof (rule ccontr)
    assume "\<not> (\<exists>i<D. V i m \<noteq> 0)"
    then have "(\<Sum>i<D. V i m * V i m) = 0" by simp
    then show False using VV [OF that that] by simp
  qed
  define p where "p m = (SOME i. i < D \<and> V i m \<noteq> 0)" for m
  have p: "p m < D" "V (p m) m \<noteq> 0" if "m < D" for m
    using someI_ex [OF ex [OF that]] by (simp_all add: p_def)
  have sp: "(s m)\<^sup>2 = c (p m)" if "m < D" for m
    using star [OF p(1) [OF that] that] p(2) [OF that] by simp
  have only: "V i m = 0" if "i < D" "m < D" "i \<noteq> p m" for i m
  proof (rule ccontr)
    assume "V i m \<noteq> 0"
    then have "c i = (s m)\<^sup>2" using star [OF that(1,2)] by simp
    then have "i = p m" using sp [OF that(2)] cinj that(1) p(1) [OF that(2)] by simp
    then show False using that(3) by simp
  qed
  have unit: "V (p m) m * V (p m) m = 1" if "m < D" for m
  proof -
    have "(\<Sum>i<D. V i m * V i m) = V (p m) m * V (p m) m"
      using that by (intro sum_single p(1)) (simp_all add: only)
    then show ?thesis using VV [OF that that] by simp
  qed
  have pinj: "p m \<noteq> p m'" if "m < D" "m' < D" "m \<noteq> m'" for m m'
  proof
    assume e: "p m = p m'"
    have "(\<Sum>i<D. V i m * V i m') = V (p m) m * V (p m) m'"
      using that by (intro sum_single p(1)) (simp_all add: only)
    then have "V (p m) m * V (p m) m' = 0"
      using VV [OF that(1,2)] that(3) by simp
    then show False using p(2) [OF that(1)] p(2) [OF that(2)] e by simp
  qed
  have pmono: "p m < p m'" if "m < m'" "m' < D" for m m'
  proof (rule ccontr)
    assume "\<not> p m < p m'"
    moreover have "p m \<noteq> p m'" using that by (intro pinj) simp_all
    ultimately have lt: "p m' < p m" by simp
    have m: "m < D" using that by simp
    have "s m' \<le> s m" using that by (intro sorted) simp_all
    then have "(s m')\<^sup>2 \<le> (s m)\<^sup>2"
      using s0 [OF that(2)] by (intro power_mono) simp_all
    then have "c (p m') \<le> c (p m)"
      using sp [OF m] sp [OF that(2)] by simp
    moreover have "c (p m) < c (p m')"
      using lt p(1) [OF m] by (intro cdec) simp_all
    ultimately show False by simp
  qed
  have pid: "p m = m" if "m < D" for m
    using pmono p(1) that by (rule strict_mono_bounded_id)
  show "(s l)\<^sup>2 = c l" if "l < D" for l
    using sp [OF that] pid [OF that] by simp
  show off: "V i l = 0" if "i < D" "l < D" "i \<noteq> l" for i l
    using only [OF that(1,2)] pid [OF that(2)] that(3) by simp
  show "V l l = 1 \<or> V l l = - 1" if "l < D" for l
    using unit [OF that] pid [OF that] by (simp add: square_eq_1_iff [symmetric] power2_eq_square)
  show "U k l * s l * V l l = A k l" if "k < N" "l < D" for k l
  proof -
    have "A k l = (\<Sum>m<D. U k m * s m * V l m)"
      using that by (rule E1)
    also have "\<dots> = U k l * s l * V l l"
      using that by (intro sum_single) (simp_all add: off)
    finally show ?thesis by simp
  qed
qed

lemma wf_matrix_entry:
  assumes "wf u" "shape u = [n, k]"
  shows "u = matrix n k (entry u)"
proof -
  have len: "length (data u) = n * k" using assms by (simp add: wf_def)
  have nc: "ncols u = k" using assms(2) by (simp add: ncols_def)
  have "map (\<lambda>i. entry u (i div k) (i mod k)) [0..<n * k] = data u"
    by (rule nth_equalityI) (simp_all add: len entry_def nc)
  then show ?thesis using assms(2) by (cases u) (simp add: matrix_def)
qed

lemma wf_vector_nth:
  assumes "wf s" "shape s = [k]" "\<And>l. l < k \<Longrightarrow> data s ! l = r l"
  shows "s = vector k r"
proof -
  have len: "length (data s) = k" using assms by (simp add: wf_def)
  have "map r [0..<k] = data s"
    by (rule nth_equalityI) (simp_all add: len assms(3))
  then show ?thesis using assms(2) by (cases s) (simp add: vector_def)
qed

lemma is_svdD:
  assumes svd: "is_svd x (u, s, v)"
  defines "K \<equiv> min (nrows x) (ncols x)"
  shows "shape u = [nrows x, K]" "shape s = [K]" "shape v = [ncols x, K]"
    and "wf u" "wf s" "wf v"
    and "\<And>i j. i < nrows x \<Longrightarrow> j < ncols x \<Longrightarrow>
           entry x i j = (\<Sum>l<K. entry u i l * data s ! l * entry v j l)"
    and "\<And>l m. l < K \<Longrightarrow> m < K \<Longrightarrow>
           (\<Sum>i<nrows x. entry u i l * entry u i m) = (if l = m then 1 else 0)"
    and "\<And>l m. l < K \<Longrightarrow> m < K \<Longrightarrow>
           (\<Sum>j<ncols x. entry v j l * entry v j m) = (if l = m then 1 else 0)"
    and "\<And>l. l < K \<Longrightarrow> 0 \<le> data s ! l"
    and "\<And>l m. l \<le> m \<Longrightarrow> m < K \<Longrightarrow> data s ! m \<le> data s ! l"
proof -
  have sh: "shape u = [nrows x, K]" "shape v = [ncols x, K]" "shape s = [K]"
    and w: "wf u" "wf s" "wf v"
    and uu: "gram u u = identity K" and vv: "gram v v = identity K"
    and pos: "list_all (\<lambda>e. 0 \<le> e) (data s)"
    and srt: "sorted_wrt (\<ge>) (data s)"
    and eq: "x = matrix (nrows x) (ncols x)
               (\<lambda>i j. \<Sum>l<K. entry u i l * data s ! l * entry v j l)"
    using svd unfolding is_svd_def K_def by (simp_all add: Let_def)
  show "shape u = [nrows x, K]" "shape s = [K]" "shape v = [ncols x, K]" "wf u" "wf s" "wf v"
    by (fact sh w)+
  have dims: "nrows u = nrows x" "ncols u = K" "nrows v = ncols x" "ncols v = K"
    using sh by (simp_all add: nrows_def ncols_def)
  have len: "length (data s) = K"
    using sh w by (simp add: wf_def)
  show "entry x i j = (\<Sum>l<K. entry u i l * data s ! l * entry v j l)"
    if "i < nrows x" "j < ncols x" for i j
  proof -
    have "entry x i j = entry (matrix (nrows x) (ncols x)
               (\<lambda>i j. \<Sum>l<K. entry u i l * data s ! l * entry v j l)) i j"
      using eq by simp
    then show ?thesis using that by simp
  qed
  show "(\<Sum>i<nrows x. entry u i l * entry u i m) = (if l = m then 1 else 0)"
    if "l < K" "m < K" for l m
    using gram_identityD [OF uu dims(2) that] dims by simp
  show "(\<Sum>j<ncols x. entry v j l * entry v j m) = (if l = m then 1 else 0)"
    if "l < K" "m < K" for l m
    using gram_identityD [OF vv dims(4) that] dims by simp
  show "0 \<le> data s ! l" if "l < K" for l
    using pos that len by (simp add: list_all_length)
  show "data s ! m \<le> data s ! l" if "l \<le> m" "m < K" for l m
  proof (cases "l = m")
    case False
    then have "l < m" using that by simp
    then show ?thesis using srt that len by (simp add: sorted_wrt_iff_nth_less)
  qed simp
qed

lemma svd_tall_diag:
  assumes svd: "is_svd x (u, s, v)" and sh: "shape x = [N, D]" "D \<le> N"
    and G: "\<And>i j. i < D \<Longrightarrow> j < D \<Longrightarrow>
              (\<Sum>k<N. entry x k i * entry x k j) = (if i = j then (r i)\<^sup>2 else 0)"
    and rpos: "\<And>i. i < D \<Longrightarrow> 0 < r i"
    and rdec: "\<And>i j. i < j \<Longrightarrow> j < D \<Longrightarrow> r j < r i"
  shows "\<exists>g. (\<forall>l<D. g l = 1 \<or> g l = - 1)
           \<and> u = matrix N D (\<lambda>k l. entry x k l * g l / r l)
           \<and> s = vector D r
           \<and> v = matrix D D (\<lambda>i l. if i = l then g l else 0)"
proof -
  have d: "nrows x = N" "ncols x = D" "min N D = D"
    using sh by (simp_all add: nrows_def ncols_def)
  note f = is_svdD [OF svd, unfolded d]
  have cdec: "(r j)\<^sup>2 < (r i)\<^sup>2" if "i < j" "j < D" for i j
    using rdec [OF that] rpos [OF that(2)] by (intro power_strict_mono) simp_all
  note un = svd_diag_unique [where A = "entry x" and U = "entry u" and V = "entry v"
      and s = "\<lambda>l. data s ! l" and c = "\<lambda>i. (r i)\<^sup>2" and N = N and D = D,
      OF f(7) f(8) f(9) f(10) f(11) G cdec]
  have sv: "data s ! l = r l" if "l < D" for l
  proof -
    have "(data s ! l)\<^sup>2 = (r l)\<^sup>2" using un(1) that by simp
    then show ?thesis using f(10) [OF that] rpos [OF that] by (simp add: power2_eq_iff_nonneg)
  qed
  define g where "g l = entry v l l" for l
  have g: "g l = 1 \<or> g l = - 1" if "l < D" for l
    using un(3) that by (simp add: g_def)
  have "u = matrix N D (entry u)" using f(1,4) by (intro wf_matrix_entry)
  also have "\<dots> = matrix N D (\<lambda>k l. entry x k l * g l / r l)"
  proof (rule matrix_cong)
    fix k l assume kl: "k < N" "l < D"
    have "entry u k l * data s ! l * entry v l l = entry x k l" using un(4) kl by simp
    then have e: "entry x k l = entry u k l * r l * g l"
      using sv [OF kl(2)] by (simp add: g_def)
    have "entry x k l * g l / r l = entry u k l * (g l * g l) * (r l / r l)"
      unfolding e by simp
    also have "\<dots> = entry u k l" using g [OF kl(2)] rpos [OF kl(2)] by auto
    finally show "entry u k l = entry x k l * g l / r l" by simp
  qed
  finally have 1: "u = matrix N D (\<lambda>k l. entry x k l * g l / r l)" .
  have 2: "s = vector D r" using f(5,2) sv by (intro wf_vector_nth)
  have "v = matrix D D (entry v)" using f(3,6) by (intro wf_matrix_entry)
  also have "\<dots> = matrix D D (\<lambda>i l. if i = l then g l else 0)"
    using un(2) by (intro matrix_cong) (simp add: g_def)
  finally have 3: "v = matrix D D (\<lambda>i l. if i = l then g l else 0)" .
  show ?thesis using g 1 2 3 by blast
qed

lemma svd_wide_diag:
  assumes svd: "is_svd x (u, s, v)" and sh: "shape x = [D, M]" "D \<le> M"
    and G: "\<And>i j. i < D \<Longrightarrow> j < D \<Longrightarrow>
              (\<Sum>k<M. entry x i k * entry x j k) = (if i = j then (r i)\<^sup>2 else 0)"
    and rpos: "\<And>i. i < D \<Longrightarrow> 0 < r i"
    and rdec: "\<And>i j. i < j \<Longrightarrow> j < D \<Longrightarrow> r j < r i"
  shows "\<exists>g. (\<forall>l<D. g l = 1 \<or> g l = - 1)
           \<and> u = matrix D D (\<lambda>i l. if i = l then g l else 0)
           \<and> s = vector D r
           \<and> v = matrix M D (\<lambda>k l. entry x l k * g l / r l)"
proof -
  have d: "nrows x = D" "ncols x = M" "min D M = D"
    using sh by (simp_all add: nrows_def ncols_def)
  note f = is_svdD [OF svd, unfolded d]
  have cdec: "(r j)\<^sup>2 < (r i)\<^sup>2" if "i < j" "j < D" for i j
    using rdec [OF that] rpos [OF that(2)] by (intro power_strict_mono) simp_all
  have E: "entry x i k = (\<Sum>l<D. entry v k l * data s ! l * entry u i l)"
    if "k < M" "i < D" for k i
    using f(7) [OF that(2,1)] by (simp add: mult_ac)
  note un = svd_diag_unique [where A = "\<lambda>k i. entry x i k" and U = "entry v" and V = "entry u"
      and s = "\<lambda>l. data s ! l" and c = "\<lambda>i. (r i)\<^sup>2" and N = M and D = D,
      OF E f(9) f(8) f(10) f(11) G cdec]
  have sv: "data s ! l = r l" if "l < D" for l
  proof -
    have "(data s ! l)\<^sup>2 = (r l)\<^sup>2" using un(1) that by simp
    then show ?thesis using f(10) [OF that] rpos [OF that] by (simp add: power2_eq_iff_nonneg)
  qed
  define g where "g l = entry u l l" for l
  have g: "g l = 1 \<or> g l = - 1" if "l < D" for l
    using un(3) that by (simp add: g_def)
  have "v = matrix M D (entry v)" using f(3,6) by (intro wf_matrix_entry)
  also have "\<dots> = matrix M D (\<lambda>k l. entry x l k * g l / r l)"
  proof (rule matrix_cong)
    fix k l assume kl: "k < M" "l < D"
    have "entry v k l * data s ! l * entry u l l = entry x l k" using un(4) kl by simp
    then have e: "entry x l k = entry v k l * r l * g l"
      using sv [OF kl(2)] by (simp add: g_def)
    have "entry x l k * g l / r l = entry v k l * (g l * g l) * (r l / r l)"
      unfolding e by simp
    also have "\<dots> = entry v k l" using g [OF kl(2)] rpos [OF kl(2)] by auto
    finally show "entry v k l = entry x l k * g l / r l" by simp
  qed
  finally have 1: "v = matrix M D (\<lambda>k l. entry x l k * g l / r l)" .
  have 2: "s = vector D r" using f(5,2) sv by (intro wf_vector_nth)
  have "u = matrix D D (entry u)" using f(1,4) by (intro wf_matrix_entry)
  also have "\<dots> = matrix D D (\<lambda>i l. if i = l then g l else 0)"
    using un(2) by (intro matrix_cong) (simp add: g_def)
  finally have 3: "u = matrix D D (\<lambda>i l. if i = l then g l else 0)" .
  show ?thesis using g 1 2 3 by blast
qed

section \<open>The PWCCA example under every decomposition\<close>

lemma less_two_cases: "i < 2 \<Longrightarrow> i = 0 \<or> i = Suc 0" by auto
lemma less_three_cases: "i < 3 \<Longrightarrow> i = 0 \<or> i = Suc 0 \<or> i = 2" by auto

lemma vector_cong:
  assumes "\<And>j. j < n \<Longrightarrow> f j = g j"
  shows "vector n f = vector n g"
  using assms by (simp add: vector_def)

lemma zero_mean_x7: "zero_mean x7 = x7"
  by code_simp

lemma zero_mean_y7: "zero_mean y7 = y7"
  by code_simp

lemma sum_below_8: "(\<Sum>k<8::nat. f k) = f 0 + f 1 + f 2 + f 3 + f 4 + f 5 + f 6 + (f 7 :: real)"
  by (simp add: numeral_eq_Suc lessThan_Suc)

lemma sum_below_3: "(\<Sum>k<3::nat. f k) = f 0 + f 1 + (f 2 :: real)"
  by (simp add: numeral_eq_Suc lessThan_Suc)

lemma sum_below_2: "(\<Sum>k<2::nat. f k) = f 0 + (f 1 :: real)"
  by (simp add: numeral_eq_Suc lessThan_Suc)

lemma x7_entries:
  "entry x7 0 0 = 1" "entry x7 0 1 = 1/2" "entry x7 1 0 = -1" "entry x7 1 1 = 1/2"
  "entry x7 2 0 = 1" "entry x7 2 1 = -1/2" "entry x7 3 0 = -1" "entry x7 3 1 = -1/2"
  "entry x7 4 0 = 0" "entry x7 4 1 = 0" "entry x7 5 0 = 0" "entry x7 5 1 = 0"
  "entry x7 6 0 = 0" "entry x7 6 1 = 0" "entry x7 7 0 = 0" "entry x7 7 1 = 0"
  by (simp_all add: entry_def x7_def ncols_def)

lemma y7_entries:
  "entry y7 0 0 = 3/2" "entry y7 0 1 = 3/5" "entry y7 0 2 = 0"
  "entry y7 1 0 = -3/2" "entry y7 1 1 = 3/5" "entry y7 1 2 = 0"
  "entry y7 2 0 = 3/2" "entry y7 2 1 = -3/5" "entry y7 2 2 = 0"
  "entry y7 3 0 = -3/2" "entry y7 3 1 = -3/5" "entry y7 3 2 = 0"
  "entry y7 4 0 = 0" "entry y7 4 1 = 4/5" "entry y7 4 2 = 1/2"
  "entry y7 5 0 = 0" "entry y7 5 1 = -4/5" "entry y7 5 2 = 1/2"
  "entry y7 6 0 = 0" "entry y7 6 1 = 4/5" "entry y7 6 2 = -1/2"
  "entry y7 7 0 = 0" "entry y7 7 1 = -4/5" "entry y7 7 2 = -1/2"
  by (simp_all add: entry_def y7_def ncols_def)

lemma x7_gram:
  assumes "i < 2" "j < 2"
  shows "(\<Sum>k<8. entry x7 k i * entry x7 k j) = (if i = j then (r7x i)\<^sup>2 else 0)"
  using less_two_cases [OF assms(1)] less_two_cases [OF assms(2)]
  by (auto simp add: sum_below_8 x7_entries r7x_def power2_eq_square simp flip: One_nat_def)

lemma y7_gram:
  assumes "i < 3" "j < 3"
  shows "(\<Sum>k<8. entry y7 k i * entry y7 k j) = (if i = j then (r7y i)\<^sup>2 else 0)"
  using less_three_cases [OF assms(1)] less_three_cases [OF assms(2)]
  by (auto simp add: sum_below_8 y7_entries r7y_def power2_eq_square simp flip: One_nat_def)

lemma x7_y7_gram:
  assumes "i < 2" "j < 3"
  shows "(\<Sum>k<8. entry x7 k i * entry y7 k j) = r7x i * r7y j * c7 i j"
  using less_two_cases [OF assms(1)] less_three_cases [OF assms(2)]
  by (auto simp add: sum_below_8 x7_entries y7_entries r7x_def r7y_def r7c_def c7_def simp flip: One_nat_def)

lemma r7_facts:
  "l < 2 \<Longrightarrow> 0 < r7x l" "i < j \<Longrightarrow> r7x j < r7x i"
  "m < 3 \<Longrightarrow> 0 < r7y m" "i < j \<Longrightarrow> r7y j < r7y i"
  "l < 2 \<Longrightarrow> 0 < r7c l" "i < j \<Longrightarrow> r7c j < r7c i"
  by (auto simp add: r7x_def r7y_def r7c_def dest: less_two_cases)

lemma svd_x7:
  assumes "is_svd x7 (u, s, v)"
  shows "\<exists>g. (\<forall>l<2. g l = 1 \<or> g l = - 1)
           \<and> u = matrix 8 2 (\<lambda>k l. entry x7 k l * g l / r7x l)
           \<and> s = vector 2 r7x
           \<and> v = matrix 2 2 (\<lambda>i l. if i = l then g l else 0)"
  by (rule svd_tall_diag [OF assms _ _ x7_gram r7_facts(1) r7_facts(2)])
     (simp_all add: x7_def)

lemma svd_y7:
  assumes "is_svd y7 (u, s, v)"
  shows "\<exists>g. (\<forall>l<3. g l = 1 \<or> g l = - 1)
           \<and> u = matrix 8 3 (\<lambda>k l. entry y7 k l * g l / r7y l)
           \<and> s = vector 3 r7y
           \<and> v = matrix 3 3 (\<lambda>i l. if i = l then g l else 0)"
  by (rule svd_tall_diag [OF assms _ _ y7_gram r7_facts(3) r7_facts(4)])
     (simp_all add: y7_def)

lemma gram_scaled:
  "gram (matrix n d1 (\<lambda>k l. a k l * g1 l / r1 l)) (matrix n d2 (\<lambda>k l. b k l * g2 l / r2 l))
     = matrix d1 d2 (\<lambda>i j. g1 i * g2 j * (\<Sum>k<n. a k i * b k j) / (r1 i * r2 j))"
  unfolding gram_def nrows_matrix ncols_matrix
proof (rule matrix_cong)
  fix i j assume ij: "i < d1" "j < d2"
  have "(\<Sum>k<n. entry (matrix n d1 (\<lambda>k l. a k l * g1 l / r1 l)) k i
                * entry (matrix n d2 (\<lambda>k l. b k l * g2 l / r2 l)) k j)
        = (\<Sum>k<n. (g1 i * g2 j / (r1 i * r2 j)) * (a k i * b k j))"
    using ij by (intro sum.cong refl) simp
  also have "\<dots> = (g1 i * g2 j / (r1 i * r2 j)) * (\<Sum>k<n. a k i * b k j)"
    by (rule sum_distrib_left [symmetric])
  also have "\<dots> = g1 i * g2 j * (\<Sum>k<n. a k i * b k j) / (r1 i * r2 j)"
    by simp
  finally show "(\<Sum>k<n. entry (matrix n d1 (\<lambda>k l. a k l * g1 l / r1 l)) k i
                * entry (matrix n d2 (\<lambda>k l. b k l * g2 l / r2 l)) k j)
        = g1 i * g2 j * (\<Sum>k<n. a k i * b k j) / (r1 i * r2 j)" .
qed

lemma gram_u7:
  "gram (matrix 8 2 (\<lambda>k l. entry x7 k l * g1 l / r7x l))
        (matrix 8 3 (\<lambda>k l. entry y7 k l * g2 l / r7y l))
     = matrix 2 3 (\<lambda>i j. g1 i * g2 j * c7 i j)"
  unfolding gram_scaled
proof (rule matrix_cong)
  fix i j :: nat assume ij: "i < 2" "j < 3"
  have "r7x i \<noteq> 0" "r7y j \<noteq> 0" using r7_facts(1) [OF ij(1)] r7_facts(3) [OF ij(2)] by simp_all
  then show "g1 i * g2 j * (\<Sum>k<8. entry x7 k i * entry y7 k j) / (r7x i * r7y j)
             = g1 i * g2 j * c7 i j"
    by (simp add: x7_y7_gram [OF ij])
qed

lemma y7_x7_gram:
  assumes "i < 3" "j < 2"
  shows "(\<Sum>k<8. entry y7 k i * entry x7 k j) = r7y i * r7x j * c7 i j"
proof -
  have "(\<Sum>k<8. entry y7 k i * entry x7 k j) = (\<Sum>k<8. entry x7 k j * entry y7 k i)"
    by (simp add: mult.commute)
  then show ?thesis using x7_y7_gram [OF assms(2,1)] by (simp add: c7_def)
qed

lemma gram_u7t:
  "gram (matrix 8 3 (\<lambda>k l. entry y7 k l * g2 l / r7y l))
        (matrix 8 2 (\<lambda>k l. entry x7 k l * g1 l / r7x l))
     = matrix 3 2 (\<lambda>i j. g2 i * g1 j * c7 i j)"
  unfolding gram_scaled
proof (rule matrix_cong)
  fix i j :: nat assume ij: "i < 3" "j < 2"
  have "r7y i \<noteq> 0" "r7x j \<noteq> 0" using r7_facts(3) [OF ij(1)] r7_facts(1) [OF ij(2)] by simp_all
  then show "g2 i * g1 j * (\<Sum>k<8. entry y7 k i * entry x7 k j) / (r7y i * r7x j)
             = g2 i * g1 j * c7 i j"
    by (simp add: y7_x7_gram [OF ij])
qed

lemma c7_rows:
  assumes "i < 2" "j < 2"
  shows "(\<Sum>k<3. c7 i k * c7 j k) = (if i = j then (r7c i)\<^sup>2 else 0)"
  using less_two_cases [OF assms(1)] less_two_cases [OF assms(2)]
  by (auto simp add: sum_below_3 c7_def power2_eq_square)

lemma c7_cols:
  assumes "i < 2" "j < 2"
  shows "(\<Sum>k<3. c7 k i * c7 k j) = (if i = j then (r7c i)\<^sup>2 else 0)"
  using less_two_cases [OF assms(1)] less_two_cases [OF assms(2)]
  by (auto simp add: sum_below_3 c7_def power2_eq_square)

lemma sign_sq:
  fixes g :: "nat \<Rightarrow> real"
  assumes "\<forall>l<n. g l = 1 \<or> g l = - 1" "l < n"
  shows "g l * g l = 1" "\<bar>g l\<bar> = 1"
  using assms by auto

lemma svd_uu7:
  assumes g1: "\<forall>l<2. g1 l = 1 \<or> g1 l = - 1" and g2: "\<forall>l<3. g2 l = 1 \<or> g2 l = - 1"
    and svd: "is_svd (matrix 2 3 (\<lambda>i j. g1 i * g2 j * c7 i j)) (u, s, v)"
  shows "\<exists>g. (\<forall>l<2. g l = 1 \<or> g l = - 1)
           \<and> u = matrix 2 2 (\<lambda>i l. if i = l then g l else 0)
           \<and> s = vector 2 r7c \<and> shape v = [3, 2]"
proof -
  define W where "W = matrix 2 3 (\<lambda>i j. g1 i * g2 j * c7 i j)"
  have G: "(\<Sum>k<3. entry W i k * entry W j k) = (if i = j then (r7c i)\<^sup>2 else 0)"
    if "i < 2" "j < 2" for i j
  proof -
    have "(\<Sum>k<3. entry W i k * entry W j k)
          = (\<Sum>k<3. (g1 i * g1 j) * ((g2 k * g2 k) * (c7 i k * c7 j k)))"
      using that by (intro sum.cong refl) (simp add: W_def)
    also have "\<dots> = (\<Sum>k<3. (g1 i * g1 j) * (c7 i k * c7 j k))"
      by (intro sum.cong refl) (simp add: sign_sq [OF g2])
    also have "\<dots> = (g1 i * g1 j) * (\<Sum>k<3. c7 i k * c7 j k)"
      by (rule sum_distrib_left [symmetric])
    also have "\<dots> = (if i = j then (r7c i)\<^sup>2 else 0)"
      using sign_sq(1) [OF g1 that(1)] that by (cases "i = j") (simp_all add: c7_rows)
    finally show ?thesis .
  qed
  have "\<exists>g. (\<forall>l<2. g l = 1 \<or> g l = - 1)
           \<and> u = matrix 2 2 (\<lambda>i l. if i = l then g l else 0)
           \<and> s = vector 2 r7c
           \<and> v = matrix 3 2 (\<lambda>k l. entry W l k * g l / r7c l)"
    by (rule svd_wide_diag [OF svd [folded W_def] _ _ G r7_facts(5) r7_facts(6)])
       (simp_all add: W_def)
  then obtain g where g: "\<forall>l<2. g l = 1 \<or> g l = - 1"
    and u: "u = matrix 2 2 (\<lambda>i l. if i = l then g l else 0)"
    and s: "s = vector 2 r7c" and v: "v = matrix 3 2 (\<lambda>k l. entry W l k * g l / r7c l)"
    by blast
  have "shape v = [3, 2]" unfolding v by simp
  then show ?thesis using g u s by blast
qed

lemma svd_uu7t:
  assumes g1: "\<forall>l<2. g1 l = 1 \<or> g1 l = - 1" and g2: "\<forall>l<3. g2 l = 1 \<or> g2 l = - 1"
    and svd: "is_svd (matrix 3 2 (\<lambda>i j. g2 i * g1 j * c7 i j)) (u, s, v)"
  shows "\<exists>g. (\<forall>l<2. g l = 1 \<or> g l = - 1)
           \<and> u = matrix 3 2 (\<lambda>k l. g2 k * g1 l * c7 k l * g l / r7c l)
           \<and> s = vector 2 r7c \<and> shape v = [2, 2]"
proof -
  define W where "W = matrix 3 2 (\<lambda>i j. g2 i * g1 j * c7 i j)"
  have G: "(\<Sum>k<3. entry W k i * entry W k j) = (if i = j then (r7c i)\<^sup>2 else 0)"
    if "i < 2" "j < 2" for i j
  proof -
    have "(\<Sum>k<3. entry W k i * entry W k j)
          = (\<Sum>k<3. (g1 i * g1 j) * ((g2 k * g2 k) * (c7 k i * c7 k j)))"
      using that by (intro sum.cong refl) (simp add: W_def)
    also have "\<dots> = (\<Sum>k<3. (g1 i * g1 j) * (c7 k i * c7 k j))"
      by (intro sum.cong refl) (simp add: sign_sq [OF g2])
    also have "\<dots> = (g1 i * g1 j) * (\<Sum>k<3. c7 k i * c7 k j)"
      by (rule sum_distrib_left [symmetric])
    also have "\<dots> = (if i = j then (r7c i)\<^sup>2 else 0)"
      using sign_sq(1) [OF g1 that(1)] that by (cases "i = j") (simp_all add: c7_cols)
    finally show ?thesis .
  qed
  have "\<exists>g. (\<forall>l<2. g l = 1 \<or> g l = - 1)
           \<and> u = matrix 3 2 (\<lambda>k l. entry W k l * g l / r7c l)
           \<and> s = vector 2 r7c
           \<and> v = matrix 2 2 (\<lambda>i l. if i = l then g l else 0)"
    by (rule svd_tall_diag [OF svd [folded W_def] _ _ G r7_facts(5) r7_facts(6)])
       (simp_all add: W_def)
  then obtain g where g: "\<forall>l<2. g l = 1 \<or> g l = - 1"
    and u: "u = matrix 3 2 (\<lambda>k l. entry W k l * g l / r7c l)"
    and s: "s = vector 2 r7c" and v: "v = matrix 2 2 (\<lambda>i l. if i = l then g l else 0)"
    by blast
  have u': "u = matrix 3 2 (\<lambda>k l. g2 k * g1 l * c7 k l * g l / r7c l)"
    unfolding u by (rule matrix_cong) (simp add: W_def)
  have "shape v = [2, 2]" unfolding v by simp
  then show ?thesis using g u' s by blast
qed

lemma vector_facts [simp]:
  "shape (vector n f) = [n]" "tdim (vector n f) = 1" "nrows (vector n f) = n"
  by (simp_all add: vector_def tdim_def nrows_def)

lemma back_project_diag:
  assumes r: "\<And>l. l < D \<Longrightarrow> r l \<noteq> 0" and u: "shape u = [D, E]"
  shows "back_project (matrix D D (\<lambda>i l. if i = l then g l else 0)) (vector D r) u
           = Inr (Some (matrix D E (\<lambda>i j. g i / r i * entry u i j)))"
proof -
  have du: "tdim u = 2" "nrows u = D" "ncols u = E"
    using u by (simp_all add: tdim_def nrows_def ncols_def)
  have nz: "0 \<notin> set (data (vector D r))"
    using r by (auto simp add: vector_def)
  define V where "V = matrix D D (\<lambda>i l. if i = l then g l else 0)"
  have "matrix D E (\<lambda>i j. \<Sum>k<D. entry (matrix D D (\<lambda>i j. entry V i j / data (vector D r) ! j)) i k
                              * entry u k j)
        = matrix D E (\<lambda>i j. g i / r i * entry u i j)"
  proof (rule matrix_cong)
    fix i j assume ij: "i < D" "j < E"
    have "(\<Sum>k<D. entry (matrix D D (\<lambda>i j. entry V i j / data (vector D r) ! j)) i k * entry u k j)
          = (\<Sum>k<D. (g i / r i * entry u i j) * (if i = k then 1 else 0))"
      using ij by (intro sum.cong refl) (simp add: V_def)
    also have "\<dots> = g i / r i * entry u i j"
      by (rule sum_delta_pick(1) [OF ij(1)])
    finally show "(\<Sum>k<D. entry (matrix D D (\<lambda>i j. entry V i j / data (vector D r) ! j)) i k
                     * entry u k j) = g i / r i * entry u i j" .
  qed
  moreover have "tdim V = 2" "nrows V = D" "ncols V = D"
    by (simp_all add: V_def)
  ultimately show ?thesis
    using nz du by (simp add: back_project_def matmul_def V_def [symmetric])
qed

lemma back_project_shapes:
  assumes "shape v = [D, D]" "shape s = [D]" "shape u = [D, E]"
  shows "\<exists>b. back_project v s u = Inr b"
  using assms by (simp add: back_project_def matmul_def tdim_def nrows_def ncols_def)

lemma cca_by_svd_unfold:
  assumes "svd la x = (u1, s1, v1)" "svd la y = (u2, s2, v2)"
    and "tdim u1 = 2" "tdim u2 = 2" "nrows u1 = nrows u2"
    and "svd la (gram u1 u2) = (u, d, v)"
  shows "cca_by_svd la x y
           = ebind (back_project v1 s1 u) (\<lambda>a. ebind (back_project v2 s2 v) (\<lambda>b. Inr (a, b, d)))"
proof -
  have "matmul (matrix (ncols u1) (nrows u1) (\<lambda>i j. entry u1 j i)) u2 = Inr (gram u1 u2)"
    using assms(3-5) by (rule matmul_tr)
  then show ?thesis
    using assms(1,2,3,6) by (simp add: cca_by_svd_def tr_def)
qed

lemma pwcca_unfold:
  assumes "cca la x y backend = Inr (Some a, b, d)" "matmul x a = Inr xa" "tdim xa = 2"
    and "vector (ncols xa) (\<lambda>j. \<Sum>i<nrows xa. \<bar>entry xa i j\<bar>) = alpha"
  shows "pwcca_distance la x y backend
           = ebind (matmul (scale (1 / sum_list (data alpha)) alpha) d) (\<lambda>e.
               if data alpha \<noteq> [] \<and> sum_list (data alpha) = 0 then Inl NonFinite
               else ebind (item e) (\<lambda>v. Inr (1 - v)))"
  using assms by (simp add: pwcca_distance_def Let_def)

lemma vector2: "vector 2 f = \<lparr>shape = [2], data = [f 0, f 1]\<rparr>"
  by (simp add: vector_def numeral_2_eq_2 upt_rec)

lemma cca_x7_y7:
  "cca la x7 y7 ''svd'' = cca_by_svd la x7 y7" "cca la y7 x7 ''svd'' = cca_by_svd la y7 x7"
  by (simp_all add: cca_def tsize_def tdim_def fewer_points_than_features_def
        zero_mean_x7 zero_mean_y7 x7_def [THEN arg_cong, of shape] y7_def [THEN arg_cong, of shape])

lemma x7_shape: "shape x7 = [8, 2]" "tdim x7 = 2" "nrows x7 = 8" "ncols x7 = 2"
  by (simp_all add: x7_def tdim_def nrows_def ncols_def)

lemma y7_shape: "shape y7 = [8, 3]" "tdim y7 = 2" "nrows y7 = 8" "ncols y7 = 3"
  by (simp_all add: y7_def tdim_def nrows_def ncols_def)

lemma x7_abs_columns:
  assumes "j < 2"
  shows "(\<Sum>i<8. \<bar>entry x7 i j\<bar> / r7x j) = 2"
  using less_two_cases [OF assms]
  by (auto simp add: sum_below_8 x7_entries r7x_def simp flip: One_nat_def)

lemma y7_abs_columns:
  assumes "j < 2"
  shows "(\<Sum>i<8. \<bar>entry y7 i j\<bar> / r7y j) = 2 + 4 / 5 * real j"
  using less_two_cases [OF assms]
  by (auto simp add: sum_below_8 y7_entries r7y_def simp flip: One_nat_def)

lemma pwcca_x7_y7:
  assumes h1: "is_svd (zero_mean x7) (svd la (zero_mean x7))"
    and h2: "is_svd (zero_mean y7) (svd la (zero_mean y7))"
    and h3: "is_svd (gram (fst (svd la (zero_mean x7))) (fst (svd la (zero_mean y7))))
               (svd la (gram (fst (svd la (zero_mean x7))) (fst (svd la (zero_mean y7)))))"
  shows "pwcca_distance la x7 y7 ''svd'' = Inr (1 / 5)"
proof -
  obtain u1 s1 v1 where sx: "svd la x7 = (u1, s1, v1)" by (cases "svd la x7")
  obtain u2 s2 v2 where sy: "svd la y7 = (u2, s2, v2)" by (cases "svd la y7")
  have "is_svd x7 (u1, s1, v1)" using h1 by (simp add: zero_mean_x7 sx)
  from svd_x7 [OF this] obtain g1 where g1: "\<forall>l<2. g1 l = 1 \<or> g1 l = - 1"
    and u1: "u1 = matrix 8 2 (\<lambda>k l. entry x7 k l * g1 l / r7x l)"
    and s1: "s1 = vector 2 r7x"
    and v1: "v1 = matrix 2 2 (\<lambda>i l. if i = l then g1 l else 0)"
    by blast
  have "is_svd y7 (u2, s2, v2)" using h2 by (simp add: zero_mean_y7 sy)
  from svd_y7 [OF this] obtain g2 where g2: "\<forall>l<3. g2 l = 1 \<or> g2 l = - 1"
    and u2: "u2 = matrix 8 3 (\<lambda>k l. entry y7 k l * g2 l / r7y l)"
    and s2: "s2 = vector 3 r7y"
    and v2: "v2 = matrix 3 3 (\<lambda>i l. if i = l then g2 l else 0)"
    by blast
  define W where "W = matrix 2 3 (\<lambda>i j. g1 i * g2 j * c7 i j)"
  have uu: "gram u1 u2 = W" unfolding u1 u2 W_def by (rule gram_u7)
  obtain u d v where sw: "svd la W = (u, d, v)" by (cases "svd la W")
  have "is_svd W (u, d, v)"
    using h3 by (simp add: zero_mean_x7 zero_mean_y7 sx sy uu sw)
  from svd_uu7 [OF g1 g2 this [unfolded W_def]]
  obtain g3 where g3: "\<forall>l<2. g3 l = 1 \<or> g3 l = - 1"
    and u: "u = matrix 2 2 (\<lambda>i l. if i = l then g3 l else 0)"
    and d: "d = vector 2 r7c" and v: "shape v = [3, 2]"
    by blast
  define A where "A = matrix 2 2 (\<lambda>i j. g1 i / r7x i * entry u i j)"
  have rx: "r7x l \<noteq> 0" if "l < 2" for l using r7_facts(1) [OF that] by simp
  have ry: "r7y l \<noteq> 0" if "l < 3" for l using r7_facts(3) [OF that] by simp
  have a: "back_project v1 s1 u = Inr (Some A)"
    unfolding v1 s1 A_def by (rule back_project_diag [OF rx]) (simp_all add: u)
  obtain b where b: "back_project v2 s2 v = Inr b"
    using back_project_shapes [of v2 3 s2 v 2] by (auto simp add: v2 s2 v)
  have "cca_by_svd la x7 y7
          = ebind (back_project v1 s1 u) (\<lambda>a. ebind (back_project v2 s2 v) (\<lambda>b. Inr (a, b, d)))"
    by (rule cca_by_svd_unfold [OF sx sy _ _ _ sw [folded uu]]) (simp_all add: u1 u2)
  then have cca: "cca la x7 y7 ''svd'' = Inr (Some A, b, d)"
    by (simp add: cca_x7_y7 a b)
  define XA where "XA = matrix 8 2 (\<lambda>i j. \<Sum>k<2. entry x7 i k * entry A k j)"
  have xa: "matmul x7 A = Inr XA"
    by (simp add: matmul_def x7_shape A_def XA_def)
  have e: "\<bar>entry XA i j\<bar> = \<bar>entry x7 i j\<bar> / r7x j" if "i < 8" "j < 2" for i j
  proof -
    have "entry XA i j = (\<Sum>k<2. entry x7 i k * entry A k j)"
      using that by (simp add: XA_def)
    also have "\<dots> = (\<Sum>k<2. (entry x7 i j * (g1 j * g3 j / r7x j)) * (if j = k then 1 else 0))"
      using that by (intro sum.cong refl) (auto simp add: A_def u)
    also have "\<dots> = entry x7 i j * (g1 j * g3 j / r7x j)"
      by (rule sum_delta_pick(1) [OF that(2)])
    finally show ?thesis
      using sign_sq(2) [OF g1 that(2)] sign_sq(2) [OF g3 that(2)] r7_facts(1) [OF that(2)]
      by (simp add: abs_mult)
  qed
  have alpha: "vector (ncols XA) (\<lambda>j. \<Sum>i<nrows XA. \<bar>entry XA i j\<bar>)
                 = \<lparr>shape = [2], data = [2, 2]\<rparr>"
  proof -
    have dims: "ncols XA = 2" "nrows XA = 8" by (simp_all add: XA_def)
    have "vector (ncols XA) (\<lambda>j. \<Sum>i<nrows XA. \<bar>entry XA i j\<bar>)
            = vector 2 (\<lambda>j. \<Sum>i<8. \<bar>entry x7 i j\<bar> / r7x j)"
      unfolding dims by (intro vector_cong sum.cong refl) (simp add: e)
    also have "\<dots> = vector 2 (\<lambda>j. 2)"
      by (intro vector_cong x7_abs_columns)
    finally show ?thesis by (simp add: vector2)
  qed
  have "tdim XA = 2" by (simp add: XA_def)
  note pwcca_unfold [OF cca xa this alpha]
  then show ?thesis
    by (simp add: d vector2 r7c_def matmul_def tdim_def scale_def nrows_def item_def sum_below_2)
qed

lemma pwcca_y7_x7:
  assumes h1: "is_svd (zero_mean x7) (svd la (zero_mean x7))"
    and h2: "is_svd (zero_mean y7) (svd la (zero_mean y7))"
    and h3: "is_svd (gram (fst (svd la (zero_mean y7))) (fst (svd la (zero_mean x7))))
               (svd la (gram (fst (svd la (zero_mean y7))) (fst (svd la (zero_mean x7)))))"
  shows "pwcca_distance la y7 x7 ''svd'' = Inr (7 / 30)"
proof -
  obtain u1 s1 v1 where sx: "svd la x7 = (u1, s1, v1)" by (cases "svd la x7")
  obtain u2 s2 v2 where sy: "svd la y7 = (u2, s2, v2)" by (cases "svd la y7")
  have "is_svd x7 (u1, s1, v1)" using h1 by (simp add: zero_mean_x7 sx)
  from svd_x7 [OF this] obtain g1 where g1: "\<forall>l<2. g1 l = 1 \<or> g1 l = - 1"
    and u1: "u1 = matrix 8 2 (\<lambda>k l. entry x7 k l * g1 l / r7x l)"
    and s1: "s1 = vector 2 r7x"
    and v1: "v1 = matrix 2 2 (\<lambda>i l. if i = l then g1 l else 0)"
    by blast
  have "is_svd y7 (u2, s2, v2)" using h2 by (simp add: zero_mean_y7 sy)
  from svd_y7 [OF this] obtain g2 where g2: "\<forall>l<3. g2 l = 1 \<or> g2 l = - 1"
    and u2: "u2 = matrix 8 3 (\<lambda>k l. entry y7 k l * g2 l / r7y l)"
    and s2: "s2 = vector 3 r7y"
    and v2: "v2 = matrix 3 3 (\<lambda>i l. if i = l then g2 l else 0)"
    by blast
  define W where "W = matrix 3 2 (\<lambda>i j. g2 i * g1 j * c7 i j)"
  have uu: "gram u2 u1 = W" unfolding u1 u2 W_def by (rule gram_u7t)
  obtain u d v where sw: "svd la W = (u, d, v)" by (cases "svd la W")
  have "is_svd W (u, d, v)"
    using h3 by (simp add: zero_mean_x7 zero_mean_y7 sx sy uu sw)
  from svd_uu7t [OF g1 g2 this [unfolded W_def]]
  obtain g4 where g4: "\<forall>l<2. g4 l = 1 \<or> g4 l = - 1"
    and u: "u = matrix 3 2 (\<lambda>k l. g2 k * g1 l * c7 k l * g4 l / r7c l)"
    and d: "d = vector 2 r7c" and v: "shape v = [2, 2]"
    by blast
  define A where "A = matrix 3 2 (\<lambda>i j. g2 i / r7y i * entry u i j)"
  have rx: "r7x l \<noteq> 0" if "l < 2" for l using r7_facts(1) [OF that] by simp
  have ry: "r7y l \<noteq> 0" if "l < 3" for l using r7_facts(3) [OF that] by simp
  have rc: "r7c l \<noteq> 0" if "l < 2" for l using r7_facts(5) [OF that] by simp
  have a: "back_project v2 s2 u = Inr (Some A)"
    unfolding v2 s2 A_def by (rule back_project_diag [OF ry]) (simp_all add: u)
  obtain b where b: "back_project v1 s1 v = Inr b"
    using back_project_shapes [of v1 2 s1 v 2] by (auto simp add: v1 s1 v)
  have "cca_by_svd la y7 x7
          = ebind (back_project v2 s2 u) (\<lambda>a. ebind (back_project v1 s1 v) (\<lambda>b. Inr (a, b, d)))"
    by (rule cca_by_svd_unfold [OF sy sx _ _ _ sw [folded uu]]) (simp_all add: u1 u2)
  then have cca: "cca la y7 x7 ''svd'' = Inr (Some A, b, d)"
    by (simp add: cca_x7_y7 a b)
  define YA where "YA = matrix 8 2 (\<lambda>i j. \<Sum>k<3. entry y7 i k * entry A k j)"
  have ya: "matmul y7 A = Inr YA"
    by (simp add: matmul_def y7_shape A_def YA_def)
  have e: "\<bar>entry YA i j\<bar> = \<bar>entry y7 i j\<bar> / r7y j" if "i < 8" "j < 2" for i j
  proof -
    have j3: "j < 3" using that by simp
    have "entry YA i j = (\<Sum>k<3. entry y7 i k * entry A k j)"
      using that by (simp add: YA_def)
    also have "\<dots> = (\<Sum>k<3. (entry y7 i j * (g1 j * g4 j / r7y j)) * (if j = k then 1 else 0))"
    proof (intro sum.cong refl)
      fix k assume "k \<in> {..<3::nat}"
      then have k: "k < 3" by simp
      show "entry y7 i k * entry A k j
              = (entry y7 i j * (g1 j * g4 j / r7y j)) * (if j = k then 1 else 0)"
      proof (cases "j = k")
        case True
        have "entry A j j = (g2 j * g2 j) * (g1 j * g4 j) * (r7c j / r7c j) / r7y j"
          using that j3 by (simp add: A_def u c7_def)
        also have "\<dots> = g1 j * g4 j / r7y j"
          using sign_sq(1) [OF g2 j3] rc [OF that(2)] by simp
        finally show ?thesis using True by simp
      next
        case False
        then show ?thesis using that k by (simp add: A_def u c7_def)
      qed
    qed
    also have "\<dots> = entry y7 i j * (g1 j * g4 j / r7y j)"
      by (rule sum_delta_pick(1) [OF j3])
    finally show ?thesis
      using sign_sq(2) [OF g1 that(2)] sign_sq(2) [OF g4 that(2)] r7_facts(3) [OF j3]
      by (simp add: abs_mult)
  qed
  have alpha: "vector (ncols YA) (\<lambda>j. \<Sum>i<nrows YA. \<bar>entry YA i j\<bar>)
                 = \<lparr>shape = [2], data = [2, 14 / 5]\<rparr>"
  proof -
    have dims: "ncols YA = 2" "nrows YA = 8" by (simp_all add: YA_def)
    have "vector (ncols YA) (\<lambda>j. \<Sum>i<nrows YA. \<bar>entry YA i j\<bar>)
            = vector 2 (\<lambda>j. \<Sum>i<8. \<bar>entry y7 i j\<bar> / r7y j)"
      unfolding dims by (intro vector_cong sum.cong refl) (simp add: e)
    also have "\<dots> = vector 2 (\<lambda>j. 2 + 4 / 5 * real j)"
      by (intro vector_cong y7_abs_columns)
    finally show ?thesis by (simp add: vector2)
  qed
  have "tdim YA = 2" by (simp add: YA_def)
  note pwcca_unfold [OF cca ya this alpha]
  then show ?thesis
    by (simp add: d vector2 r7c_def matmul_def tdim_def scale_def nrows_def item_def sum_below_2)
qed

lemma decomposesD:
  assumes dec: "decomposes la x y" and rows: "nrows x = nrows y"
  shows "is_svd (zero_mean x) (svd la (zero_mean x))"
    and "is_svd (zero_mean y) (svd la (zero_mean y))"
    and "is_svd (gram (fst (svd la (zero_mean x))) (fst (svd la (zero_mean y))))
           (svd la (gram (fst (svd la (zero_mean x))) (fst (svd la (zero_mean y)))))"
proof -
  obtain u1 s1 v1 where sx: "svd la (zero_mean x) = (u1, s1, v1)"
    by (cases "svd la (zero_mean x)")
  obtain u2 s2 v2 where sy: "svd la (zero_mean y) = (u2, s2, v2)"
    by (cases "svd la (zero_mean y)")
  show x: "is_svd (zero_mean x) (svd la (zero_mean x))"
    and y: "is_svd (zero_mean y) (svd la (zero_mean y))"
    using dec by (simp_all add: decomposes_def Let_def)
  have "shape u1 = [nrows x, min (nrows x) (ncols x)]"
    using is_svdD(1) [OF x [unfolded sx]] by simp
  moreover have "shape u2 = [nrows y, min (nrows y) (ncols y)]"
    using is_svdD(1) [OF y [unfolded sy]] by simp
  ultimately have d: "tdim u1 = 2" "tdim u2 = 2" "nrows u1 = nrows u2"
    using rows by (simp_all add: tdim_def nrows_def [of u1] nrows_def [of u2])
  have "matmul (matrix (ncols u1) (nrows u1) (\<lambda>i j. entry u1 j i)) u2 = Inr (gram u1 u2)"
    using d by (rule matmul_tr)
  then have "ebind (tr u1) (\<lambda>u_1t. matmul u_1t u2) = Inr (gram u1 u2)"
    using d(1) by (simp add: tr_def)
  then show "is_svd (gram (fst (svd la (zero_mean x))) (fst (svd la (zero_mean y))))
           (svd la (gram (fst (svd la (zero_mean x))) (fst (svd la (zero_mean y)))))"
    using dec by (simp add: decomposes_def Let_def sx sy)
qed


section \<open>PWCCA is not symmetric\<close>

text \<open>
  C7. There are matrices \<open>x\<close> (8 \<times> 2) and \<open>y\<close> (8 \<times> 3) for which \<open>pwcca_distance\<close> depends
  on the order of its arguments: with the SVD backend it gives 1/5 for (x, y) and 7/30
  for (y, x). The decomposition is the parameter \<open>la\<close> of the model, and the two values
  are the same for every \<open>la\<close> that returns a decomposition, by \<open>is_svd\<close>, of each matrix
  the two runs hand to it (the two centered inputs, and the products of the two bases in
  both orders). The canonical correlations are 1 and 3/5 in both runs, and the weights
  differ: (1/2, 1/2) on the side of \<open>x\<close> and (5/12, 7/12) on the side of \<open>y\<close>.
\<close>

theorem pwcca_asymmetric:
  assumes "decomposes la x7 y7" "decomposes la y7 x7"
  shows "shape x7 = [8, 2] \<and> shape y7 = [8, 3]
         \<and> pwcca_distance la x7 y7 ''svd'' = Inr (1 / 5)
         \<and> pwcca_distance la y7 x7 ''svd'' = Inr (7 / 30)
         \<and> pwcca_distance la x7 y7 ''svd'' \<noteq> pwcca_distance la y7 x7 ''svd''"
proof -
  have r: "nrows x7 = nrows y7" by (simp add: x7_shape y7_shape)
  note a = decomposesD [OF assms(1) r] and b = decomposesD [OF assms(2) r [symmetric]]
  have "pwcca_distance la x7 y7 ''svd'' = Inr (1 / 5)"
    using a by (rule pwcca_x7_y7)
  moreover have "pwcca_distance la y7 x7 ''svd'' = Inr (7 / 30)"
    using a(1,2) b(3) by (rule pwcca_y7_x7)
  ultimately show ?thesis by (simp add: x7_shape y7_shape)
qed

theorem pwcca_asymmetric_witness:
  "decomposes la7 x7 y7 \<and> decomposes la7 y7 x7
   \<and> pwcca_distance la7 x7 y7 ''svd'' = Inr (1 / 5)
   \<and> pwcca_distance la7 y7 x7 ''svd'' = Inr (7 / 30)"
proof -
  have a: "decomposes la7 x7 y7" by code_simp
  have b: "decomposes la7 y7 x7" by code_simp
  show ?thesis using pwcca_asymmetric [OF a b] a b by simp
qed

end
